theory Spec2Isabelle
  imports Main "HOL-Library.Word" "HOL-Library.Sublist"
begin

section \<open>Bytes and buffers\<close>

text \<open>
  A Node \<open>Buffer\<close> is a list of bytes. \<open>Buffer.concat\<close> is \<open>@\<close>. The indices the
  decoder passes to \<open>slice\<close> are never negative; the end is clamped to the length and an
  end before the start gives the empty buffer, which \<open>take\<close> and \<open>drop\<close> do as well.
\<close>

type_synonym byte = "8 word"
type_synonym bytes = "byte list"

definition buf_slice :: "bytes \<Rightarrow> nat \<Rightarrow> nat \<Rightarrow> bytes" where
  "buf_slice b s e = take (e - s) (drop s b)"

text \<open>\<open>buf[i]\<close>: the byte as a number, \<open>undefined\<close> (here \<open>None\<close>) out of range.\<close>

definition byteAt :: "bytes \<Rightarrow> nat \<Rightarrow> nat option" where
  "byteAt b i = (if i < length b then Some (unat (b ! i)) else None)"

definition readUInt16LE :: "bytes \<Rightarrow> nat" where
  "readUInt16LE b = unat (b ! 0) + 256 * unat (b ! 1)"

definition readUInt32LE :: "bytes \<Rightarrow> nat" where
  "readUInt32LE b =
     unat (b ! 0) + 256 * unat (b ! 1) + 65536 * unat (b ! 2) + 16777216 * unat (b ! 3)"

definition readInt32LE :: "bytes \<Rightarrow> int" where
  "readInt32LE b =
     (let u = int (readUInt32LE b) in if u < 2147483648 then u else u - 4294967296)"

section \<open>The decoder's state (class LogcatParser)\<close>

text \<open>
  The private fields of \<open>LogcatParser\<close>. The field \<open>end\<close> is called \<open>ended\<close> here.
  \<open>bytesAvailable\<close> is a JavaScript number, so it is an integer that would be negative
  if the cursor ever passed the end of the buffer.
\<close>

record parser =
  buffer :: bytes
  cursor :: nat
  bytesToRead :: nat
  ended :: bool

definition bytesAvailable :: "parser \<Rightarrow> int" where
  "bytesAvailable p = int (length (buffer p)) - int (cursor p)"

definition clearBuffer :: "parser \<Rightarrow> parser" where
  "clearBuffer p = p\<lparr>bytesToRead := 0, cursor := 0, buffer := []\<rparr>"

definition rollBuffer :: "parser \<Rightarrow> parser" where
  "rollBuffer p = p\<lparr>buffer := drop (cursor p) (buffer p), cursor := 0\<rparr>"

text \<open>
  \<open>onData\<close> appends the chunk and, when enough bytes are there, clears the pending size
  and notifies \<open>readable\<close>. The boolean says whether it notified.
\<close>

definition onData :: "parser \<Rightarrow> bytes \<Rightarrow> bool \<times> parser" where
  "onData p d =
     (let p1 = p\<lparr>buffer := buffer p @ d\<rparr> in
      if bytesAvailable p1 \<ge> int (bytesToRead p)
      then (True, p1\<lparr>bytesToRead := 0\<rparr>)
      else (False, p1))"

text \<open>\<open>onEnd\<close> sets the flag and aborts \<open>readable\<close> with \<open>InputStreamEndedError\<close>.\<close>

definition onEnd :: "parser \<Rightarrow> parser" where
  "onEnd p = p\<lparr>ended := True\<rparr>"

text \<open>The method \<open>_read\<close>.\<close>

definition raw_read :: "nat \<Rightarrow> parser \<Rightarrow> bytes \<times> parser" where
  "raw_read sz p =
     (let e = cursor p + sz;
          d = buf_slice (buffer p) (cursor p) e
      in (d, p\<lparr>cursor := e\<rparr>))"

section \<open>The source stream and the event loop\<close>

text \<open>
  The decoder is driven by the events of its input stream: \<open>data\<close> with a chunk, then
  \<open>end\<close>. An environment holds the decoder, the events the stream has still to emit, and
  a schedule: at every point where the iterator has given control back to the event loop
  without waiting for \<open>readable\<close>, the next number of the schedule says how many of the
  pending events are emitted before the iterator runs on (none when the schedule is used
  up). Events emitted then find no waiter, so \<open>notify\<close> and \<open>abort\<close> do nothing.
  A read that has to wait is woken by the events themselves, one at a time.
  \<open>detach\<close> and \<open>attachStream\<close> during an iteration are not modelled, so
  \<open>StreamDetachedError\<close> is never raised.
\<close>

datatype event = Data bytes | End

datatype error =
  InsufficientBytesError | InputStreamEndedError | StreamDetachedError | InvalidHeaderSize nat

record env =
  self :: parser
  events :: "event list"
  early :: "nat list"

fun deliver :: "parser \<Rightarrow> event \<Rightarrow> parser" where
  "deliver p (Data d) = snd (onData p d)"
| "deliver p End = onEnd p"

definition resume :: "env \<Rightarrow> env" where
  "resume e =
     (case early e of
        [] \<Rightarrow> e
      | k # ks \<Rightarrow>
          e\<lparr>self := foldl deliver (self e) (take k (events e)),
            events := drop k (events e),
            early := ks\<rparr>)"

text \<open>
  \<open>await eventBarrier.waitFor('readable')\<close>: the events arrive until one notifies
  (\<open>Resolved\<close>) or aborts (\<open>Rejected\<close>); if the stream falls silent first the
  promise stays pending for ever.
\<close>

datatype wake = Resolved | Rejected error | Forever

fun waitFor_readable :: "parser \<Rightarrow> event list \<Rightarrow> wake \<times> parser \<times> event list" where
  "waitFor_readable p [] = (Forever, p, [])"
| "waitFor_readable p (Data d # es) =
     (case onData p d of
        (True, p') \<Rightarrow> (Resolved, p', es)
      | (False, p') \<Rightarrow> waitFor_readable p' es)"
| "waitFor_readable p (End # es) = (Rejected InputStreamEndedError, onEnd p, es)"

text \<open>
  How a piece of the iterator completes: with a value, with an exception, with the
  \<open>break\<close> of the decode loop, or never (suspended on a promise that stays pending).
\<close>

datatype 'a completion = Return 'a | Throw error | Break | Hang

definition read :: "nat \<Rightarrow> env \<Rightarrow> bytes completion \<times> env" where
  "read sz e =
     (let p = self e in
      if bytesAvailable p < int sz then
        if ended p then (Throw InsufficientBytesError, e)
        else
          (case waitFor_readable (p\<lparr>bytesToRead := sz\<rparr>) (events e) of
             (Resolved, p', es) \<Rightarrow>
               (case raw_read sz p' of
                  (d, p'') \<Rightarrow> (Return d, e\<lparr>self := p'', events := es\<rparr>))
           | (Rejected err, p', es) \<Rightarrow>
               (Throw (if err = InputStreamEndedError then InsufficientBytesError else err),
                e\<lparr>self := p', events := es\<rparr>)
           | (Forever, p', es) \<Rightarrow> (Hang, e\<lparr>self := p', events := es\<rparr>))
      else
        (case raw_read sz p of (d, p') \<Rightarrow> (Return d, e\<lparr>self := p'\<rparr>)))"

section \<open>The record decoder (asIterator)\<close>

text \<open>\<open>await m\<close> followed by the rest of the function: an exception, the \<open>break\<close> and a
  promise that stays pending all skip the rest.\<close>

definition await ::
  "'a completion \<times> env \<Rightarrow> ('a \<Rightarrow> env \<Rightarrow> 'b completion \<times> env) \<Rightarrow> 'b completion \<times> env" where
  "await m f =
     (case m of
        (Return x, e) \<Rightarrow> f x e
      | (Throw err, e) \<Rightarrow> (Throw err, e)
      | (Break, e) \<Rightarrow> (Break, e)
      | (Hang, e) \<Rightarrow> (Hang, e))"

definition readUInt16 :: "env \<Rightarrow> nat completion \<times> env" where
  "readUInt16 e = await (read 2 e) (\<lambda>b e'. (Return (readUInt16LE b), e'))"

definition readUInt32 :: "env \<Rightarrow> nat completion \<times> env" where
  "readUInt32 e = await (read 4 e) (\<lambda>b e'. (Return (readUInt32LE b), e'))"

definition readInt32 :: "env \<Rightarrow> int completion \<times> env" where
  "readInt32 e = await (read 4 e) (\<lambda>b e'. (Return (readInt32LE b), e'))"

text \<open>\<open>payload.indexOf(v, start)\<close> for a byte value \<open>v\<close>; \<open>None\<close> is \<open>-1\<close>.\<close>

definition indexOf_byte :: "bytes \<Rightarrow> byte \<Rightarrow> nat \<Rightarrow> nat option" where
  "indexOf_byte b v start = find (\<lambda>i. b ! i = v) [start..<length b]"

text \<open>
  The loop \<open>while(priority == 0)\<close> (lines 444 to 450), on the variables \<open>priority\<close>,
  \<open>priorityIndex\<close> and \<open>payload\<close>. \<open>undefined == 0\<close> is false.
\<close>

function scanPadding ::
  "nat \<Rightarrow> nat option \<Rightarrow> nat \<Rightarrow> bytes \<Rightarrow> env \<Rightarrow> (nat option \<times> nat \<times> bytes) completion \<times> env" where
  "scanPadding len priority priorityIndex payload e =
     (if priority = Some 0 then
        let priority' = byteAt payload priorityIndex;
            priorityIndex' = priorityIndex + 1
        in if priorityIndex' \<ge> len then
             (case read len (resume e) of
                (Return extra, e') \<Rightarrow> scanPadding len priority' priorityIndex' (payload @ extra) e'
              | (Throw err, e') \<Rightarrow> (Throw err, e')
              | (Break, e') \<Rightarrow> (Break, e')
              | (Hang, e') \<Rightarrow> (Hang, e'))
           else scanPadding len priority' priorityIndex' payload e
      else (Return (priority, priorityIndex, payload), e))"
  by pat_completeness auto

subsection \<open>Termination of the padding scan\<close>

text \<open>
  Every byte still to be consumed and every event still to be emitted counts. A read of
  at least one byte that returns lowers the count; nothing the iterator does raises it.
\<close>

fun ev_weight :: "event \<Rightarrow> nat" where
  "ev_weight (Data d) = Suc (length d)"
| "ev_weight End = 1"

definition weight :: "env \<Rightarrow> nat" where
  "weight e = nat (bytesAvailable (self e)) + sum_list (map ev_weight (events e))"

lemma deliver_weight:
  "nat (bytesAvailable (deliver p ev)) < nat (bytesAvailable p) + ev_weight ev"
  by (cases ev) (auto simp: onData_def onEnd_def bytesAvailable_def Let_def)

lemma foldl_deliver_weight:
  "nat (bytesAvailable (foldl deliver p evs)) \<le> nat (bytesAvailable p) + sum_list (map ev_weight evs)"
proof (induction evs arbitrary: p)
  case Nil
  then show ?case by simp
next
  case (Cons ev evs)
  have "nat (bytesAvailable (foldl deliver (deliver p ev) evs))
          \<le> nat (bytesAvailable (deliver p ev)) + sum_list (map ev_weight evs)"
    by (rule Cons.IH)
  also have "\<dots> \<le> nat (bytesAvailable p) + ev_weight ev + sum_list (map ev_weight evs)"
    using deliver_weight [of p ev] by simp
  finally show ?case by simp
qed

lemma resume_weight: "weight (resume e) \<le> weight e"
proof (cases "early e")
  case Nil
  then show ?thesis by (simp add: resume_def)
next
  case (Cons k ks)
  have "sum_list (map ev_weight (events e))
          = sum_list (map ev_weight (take k (events e))) + sum_list (map ev_weight (drop k (events e)))"
    by (metis append_take_drop_id map_append sum_list_append)
  with foldl_deliver_weight [of "self e" "take k (events e)"] Cons
  show ?thesis by (simp add: resume_def weight_def)
qed

lemma waitFor_weight:
  "waitFor_readable p es = (w, p', es') \<Longrightarrow>
     nat (bytesAvailable p') + sum_list (map ev_weight es')
       \<le> nat (bytesAvailable p) + sum_list (map ev_weight es)
     \<and> (w \<noteq> Forever \<longrightarrow>
          nat (bytesAvailable p') + sum_list (map ev_weight es')
            < nat (bytesAvailable p) + sum_list (map ev_weight es))
     \<and> (w = Resolved \<longrightarrow> int (bytesToRead p) \<le> bytesAvailable p')"
proof (induction p es arbitrary: w p' es' rule: waitFor_readable.induct)
  case (1 p)
  then show ?case by simp
next
  case (2 p d es)
  show ?case
  proof (cases "fst (onData p d)")
    case True
    with "2.prems" show ?thesis
      by (auto simp: onData_def Let_def bytesAvailable_def split: if_splits)
  next
    case False
    then have od: "onData p d = (False, p\<lparr>buffer := buffer p @ d\<rparr>)"
      by (auto simp: onData_def Let_def split: if_splits)
    with "2.prems" have w: "waitFor_readable (p\<lparr>buffer := buffer p @ d\<rparr>) es = (w, p', es')"
      by simp
    from "2.IH" [OF od [symmetric] refl w] show ?thesis
      by (auto simp: bytesAvailable_def)
  qed
next
  case (3 p es)
  then show ?case by (auto simp: onEnd_def bytesAvailable_def)
qed

lemma read_weight:
  assumes "read n e = (r, e')"
  shows "weight e' \<le> weight e"
    and "r = Return d \<Longrightarrow> 0 < n \<Longrightarrow> weight e' < weight e"
    and "r = Return d \<Longrightarrow> n = 0 \<Longrightarrow> d = []"
  using assms
    apply (auto simp: read_def Let_def weight_def raw_read_def buf_slice_def bytesAvailable_def
      split: if_splits prod.splits wake.splits dest!: waitFor_weight)
  done


lemma scanPadding_read_decreases:
  assumes rd: "read len (resume e) = (Return extra, e')"
  shows "weight e' < weight e \<or> (weight e' \<le> weight e \<and> extra = [])"
proof (cases "len = 0")
  case True
  with read_weight(3) [OF rd] read_weight(1) [OF rd] resume_weight [of e]
  show ?thesis by simp
next
  case False
  with read_weight(2) [OF rd] resume_weight [of e] show ?thesis by simp
qed

termination scanPadding
proof (relation "measures [\<lambda>(len, pr, i, pl, e). weight e,
                          \<lambda>(len, pr, i, pl, e). (if pr = Some 0 then 1 else 0) + (length pl - i)]",
       goal_cases)
  case 1
  show ?case by simp
next
  case (2 len pr i pl e pr' i' c e' extra)
  from 2 have "read len (resume e) = (Return extra, e')" by simp
  from scanPadding_read_decreases [OF this] 2 show ?case
    by (auto simp: byteAt_def)
next
  case (3 len pr i pl e pr' i')
  then show ?case by (auto simp: byteAt_def)
qed

declare scanPadding.simps [simp del]


text \<open>
  The local variables of the loop body when it reaches \<open>rollBuffer\<close> (line 455).
\<close>

record frame =
  f_pid :: int
  f_tid :: int
  f_sec :: int
  f_nsec :: int
  f_id :: "nat option"
  f_priority :: "nat option"
  f_priorityIndex :: nat
  f_payload :: bytes

text \<open>
  Lines 440 to 454: the payload and the scan for the priority, with the values of
  \<open>priority\<close>, \<open>priorityIndex\<close> and \<open>payload\<close> at the end.
\<close>

definition readPayload :: "nat \<Rightarrow> env \<Rightarrow> (nat option \<times> nat \<times> bytes) completion \<times> env" where
  "readPayload len e7 =
     await (read len (resume e7)) (\<lambda>payload e8.
     await (scanPadding len (byteAt payload 0) 1 payload e8)
       (\<lambda>(priority, priorityIndex, payload) e9.
     if priorityIndex > 1
     then await (read (priorityIndex - 1) (resume e9))
            (\<lambda>extra e. (Return (priority, priorityIndex, payload @ extra), e))
     else (Return (priority, priorityIndex, payload), e9)))"

text \<open>
  Lines 394 to 454 of the loop body: every read of one frame. A read that follows
  another \<open>await\<close> comes after a scheduling point; the first read of an iteration
  follows the loop condition without one.
\<close>

definition readFrame :: "bool \<Rightarrow> env \<Rightarrow> frame completion \<times> env" where
  "readFrame tryRecover e0 =
     (case readUInt16 e0 of
        (Throw err, e1) \<Rightarrow>
          if err = InsufficientBytesError \<and> bytesAvailable (self e1) = 0
          then (Break, e1) else (Throw err, e1)
      | (Break, e1) \<Rightarrow> (Break, e1)
      | (Hang, e1) \<Rightarrow> (Hang, e1)
      | (Return len, e1) \<Rightarrow>
          await (readUInt16 (resume e1)) (\<lambda>headerSize e2.
          if headerSize \<noteq> 24 \<and> headerSize \<noteq> 0 then
            (if tryRecover then (Break, e2\<lparr>self := clearBuffer (self e2)\<rparr>)
             else (Throw (InvalidHeaderSize headerSize), e2))
          else
          await (readInt32 (resume e2)) (\<lambda>pid e3.
          await (readInt32 (resume e3)) (\<lambda>tid e4.
          await (readInt32 (resume e4)) (\<lambda>sec e5.
          await (readInt32 (resume e5)) (\<lambda>nsec e6.
          await (if headerSize = 24
                 then await (readUInt32 (resume e6)) (\<lambda>v e. (Return (Some v), e))
                 else (Return None, e6)) (\<lambda>id e7.
          await (readPayload len e7) (\<lambda>(priority, priorityIndex, payload) e10.
          (Return \<lparr>f_pid = pid, f_tid = tid, f_sec = sec, f_nsec = nsec, f_id = id,
                    f_priority = priority, f_priorityIndex = priorityIndex,
                    f_payload = payload\<rparr>, e10)))))))))"

text \<open>
  \<open>LogEntry\<close>. The field \<open>id\<close> is \<open>entry_id\<close> here; \<open>priority\<close> has the type
  \<open>Priority\<close> in the source but holds whatever \<open>payload[i]\<close> gave, \<open>undefined\<close>
  included. \<open>tag\<close> and \<open>msg\<close> are the bytes that the source hands to \<open>toString()\<close>.
  The field \<open>time\<close> is a floating-point function of \<open>sec\<close> and \<open>nsec\<close> and is left out.
\<close>

record logEntry =
  pid :: int
  tid :: int
  sec :: int
  nsec :: int
  entry_id :: "nat option"
  priority :: "nat option"
  tag :: bytes
  msg :: bytes

text \<open>
  Lines 456 to 472: the entry built from the variables. \<open>payload[payload.length - 1]\<close>
  is \<open>undefined\<close> for an empty payload. \<open>if(id)\<close> is false for \<open>undefined\<close> and for 0.
\<close>

definition makeEntry :: "frame \<Rightarrow> logEntry" where
  "makeEntry f =
     (let payload = f_payload f;
          priorityIndex = f_priorityIndex f;
          separatorIndex =
            (case indexOf_byte payload 0 priorityIndex of
               None \<Rightarrow> length payload
             | Some i \<Rightarrow> i)
      in \<lparr>pid = f_pid f, tid = f_tid f, sec = f_sec f, nsec = f_nsec f,
          entry_id = (case f_id f of None \<Rightarrow> None | Some v \<Rightarrow> if v \<noteq> 0 then Some v else None),
          priority = f_priority f,
          tag = buf_slice payload priorityIndex separatorIndex,
          msg = buf_slice payload (separatorIndex + 1)
                  (if payload \<noteq> [] \<and> last payload = 0
                   then length payload - 1 else length payload)\<rparr>)"

text \<open>One pass through the loop body: the reads, \<open>rollBuffer\<close>, the entry.\<close>

definition iteration :: "bool \<Rightarrow> env \<Rightarrow> logEntry completion \<times> env" where
  "iteration tryRecover e0 =
     await (readFrame tryRecover e0)
       (\<lambda>f e. (Return (makeEntry f), e\<lparr>self := rollBuffer (self e)\<rparr>))"

text \<open>
  The \<open>while\<close> loop inside \<open>try\<close>: the entries it yields (each one is also emitted as
  \<open>entry\<close>) and how it completes. The consumer takes every entry; between a \<open>yield\<close> and
  the next test of the loop condition the event loop runs.
\<close>

function decodeLoop :: "bool \<Rightarrow> env \<Rightarrow> logEntry list \<times> unit completion \<times> env" where
  "decodeLoop tryRecover e =
     (let e0 = resume e in
      if \<not> ended (self e0) \<or> bytesAvailable (self e0) \<noteq> 0 then
        (case iteration tryRecover e0 of
           (Return entry, e1) \<Rightarrow>
             (case decodeLoop tryRecover e1 of
                (entries, c, e2) \<Rightarrow> (entry # entries, c, e2))
         | (Throw err, e1) \<Rightarrow> ([], Throw err, e1)
         | (Break, e1) \<Rightarrow> ([], Return (), e1)
         | (Hang, e1) \<Rightarrow> ([], Hang, e1))
      else ([], Return (), e0))"
  by pat_completeness auto

lemma await_weight:
  assumes "weight (snd m) \<le> w"
    and "\<And>x e. weight e \<le> w \<Longrightarrow> weight (snd (f x e)) \<le> w"
  shows "weight (snd (await m f)) \<le> w"
  using assms by (auto simp: await_def split: prod.splits completion.splits)

lemma read_weight_le: "weight (snd (read n e)) \<le> weight e"
  using read_weight(1) [of n e] by (cases "read n e") simp

lemma read_resume_weight: "weight e \<le> w \<Longrightarrow> weight (snd (read n (resume e))) \<le> w"
  using read_weight_le [of n "resume e"] resume_weight [of e] by simp

lemma readUInt16_weight: "weight e \<le> w \<Longrightarrow> weight (snd (readUInt16 (resume e))) \<le> w"
  unfolding readUInt16_def by (rule await_weight) (simp_all add: read_resume_weight)

lemma readUInt32_weight: "weight e \<le> w \<Longrightarrow> weight (snd (readUInt32 (resume e))) \<le> w"
  unfolding readUInt32_def by (rule await_weight) (simp_all add: read_resume_weight)

lemma readInt32_weight: "weight e \<le> w \<Longrightarrow> weight (snd (readInt32 (resume e))) \<le> w"
  unfolding readInt32_def by (rule await_weight) (simp_all add: read_resume_weight)

lemma scanPadding_weight: "weight (snd (scanPadding len pr i pl e)) \<le> weight e"
proof (induction len pr i pl e rule: scanPadding.induct)
  case (1 len pr i pl e)
  note eq = scanPadding.simps [of len pr i pl e]
  show ?case
  proof (cases "pr = Some 0")
    case False
    then show ?thesis by (subst eq) simp
  next
    case zero: True
    show ?thesis
    proof (cases "len \<le> i + 1")
      case False
      with zero "1.IH"(2) [OF zero refl refl] show ?thesis by (subst eq) simp
    next
      case True
      obtain c e' where rd: "read len (resume e) = (c, e')" by (cases "read len (resume e)")
      have le: "weight e' \<le> weight e"
        using read_weight(1) [OF rd] resume_weight [of e] by simp
      show ?thesis
      proof (cases c)
        case (Return extra)
        from "1.IH"(1) [OF zero refl refl True rd [symmetric] Return] le
        show ?thesis using zero True rd Return by (subst eq) simp
      qed (use zero True rd le in \<open>subst eq, simp\<close>)+
    qed
  qed
qed

lemma scanPadding_weight_le:
  "weight e \<le> w \<Longrightarrow> weight (snd (scanPadding len pr i pl e)) \<le> w"
  using scanPadding_weight [of len pr i pl e] by simp

lemma weight_if:
  "(c \<Longrightarrow> weight (snd a) \<le> w) \<Longrightarrow> (\<not> c \<Longrightarrow> weight (snd b) \<le> w)
     \<Longrightarrow> weight (snd (if c then a else b)) \<le> w"
  by simp

lemma weight_case_prod:
  "(\<And>a b. weight (snd (f a b e)) \<le> w) \<Longrightarrow> weight (snd (case_prod f x e)) \<le> w"
  by (cases x) simp

lemma weight_pair: "weight e \<le> w \<Longrightarrow> weight (snd (c, e)) \<le> w"
  by simp

lemma weight_clear: "weight e \<le> w \<Longrightarrow> weight (snd (c, e\<lparr>self := clearBuffer (self e)\<rparr>)) \<le> w"
  by (simp add: weight_def clearBuffer_def bytesAvailable_def)

lemmas weight_intros =
  await_weight readUInt16_weight readInt32_weight readUInt32_weight read_resume_weight
  scanPadding_weight_le weight_if weight_case_prod weight_clear weight_pair

lemma readFrame_weight:
  assumes "readFrame tryRecover e0 = (Return f, e')"
  shows "weight e' < weight e0"
proof -
  obtain c e1 where r1: "readUInt16 e0 = (c, e1)" by (cases "readUInt16 e0")
  show ?thesis
  proof (cases c)
    case (Return len)
    from r1 Return have "weight e1 < weight e0"
      by (auto simp: readUInt16_def await_def split: prod.splits completion.splits
               dest: read_weight(2))
    moreover have "weight (snd (readFrame tryRecover e0)) \<le> weight e1"
      unfolding readFrame_def readPayload_def r1 Return prod.case completion.case
      by (intro weight_intros order_refl | assumption)+
    ultimately show ?thesis using assms by simp
  qed (use assms r1 in \<open>auto simp: readFrame_def split: if_splits\<close>)
qed

lemma iteration_weight:
  assumes "iteration tryRecover e0 = (Return entry, e')"
  shows "weight e' < weight e0"
  using assms
  by (auto simp: iteration_def await_def weight_def rollBuffer_def bytesAvailable_def
      split: prod.splits completion.splits dest!: readFrame_weight)

termination decodeLoop
proof (relation "measure (\<lambda>(tryRecover, e). weight e)", goal_cases)
  case 1
  show ?case by simp
next
  case (2 tryRecover e e0 c e1 entry)
  then have "iteration tryRecover (resume e) = (Return entry, e1)" by simp
  from iteration_weight [OF this] resume_weight [of e] show ?case by simp
qed

declare decodeLoop.simps [simp del]

text \<open>
  \<open>asIterator\<close>: \<open>try\<close> around the loop, \<open>catch\<close>, then \<open>clearBuffer\<close>. An exception that
  is thrown again leaves the function before \<open>clearBuffer\<close>. The consumer cannot tell
  \<open>Swallowed\<close> from \<open>Finished\<close>: in both the sequence just ends.
\<close>

datatype outcome = Finished | Swallowed error | Thrown error | Suspended

definition asIterator :: "bool \<Rightarrow> bool \<Rightarrow> env \<Rightarrow> logEntry list \<times> outcome \<times> env" where
  "asIterator noError tryRecover e =
     (case decodeLoop tryRecover e of
        (entries, Throw err, e1) \<Rightarrow>
          if \<not> noError then (entries, Thrown err, e1)
          else (entries, Swallowed err, e1\<lparr>self := clearBuffer (self e1)\<rparr>)
      | (entries, Hang, e1) \<Rightarrow> (entries, Suspended, e1)
      | (entries, Return u, e1) \<Rightarrow> (entries, Finished, e1\<lparr>self := clearBuffer (self e1)\<rparr>)
      | (entries, Break, e1) \<Rightarrow> (entries, Finished, e1\<lparr>self := clearBuffer (self e1)\<rparr>))"

text \<open>
  A decoder just constructed (\<open>attachStream\<close> has cleared the buffer and the flag) on a
  stream that emits the chunks and then ends, with a schedule.
\<close>

definition attached :: "bytes list \<Rightarrow> nat list \<Rightarrow> env" where
  "attached chunks sched =
     \<lparr>self = \<lparr>buffer = [], cursor = 0, bytesToRead = 0, ended = False\<rparr>,
      events = map Data chunks @ [End],
      early = sched\<rparr>"

section \<open>The exact-size read\<close>

lemma waitFor_resolved:
  "bytesAvailable p + int (length (concat ds)) < int (bytesToRead p) \<Longrightarrow>
   int (bytesToRead p) \<le> bytesAvailable p + int (length (concat ds)) + int (length d) \<Longrightarrow>
   waitFor_readable p (map Data ds @ Data d # rest)
     = (Resolved, p\<lparr>buffer := buffer p @ concat ds @ d, bytesToRead := 0\<rparr>, rest)"
proof (induction ds arbitrary: p)
  case Nil
  then show ?case by (simp add: onData_def bytesAvailable_def)
next
  case (Cons c ds)
  let ?p = "p\<lparr>buffer := buffer p @ c\<rparr>"
  from Cons.prems have "onData p c = (False, ?p)"
    by (simp add: onData_def bytesAvailable_def)
  moreover have "waitFor_readable ?p (map Data ds @ Data d # rest)
     = (Resolved, ?p\<lparr>buffer := buffer ?p @ concat ds @ d, bytesToRead := 0\<rparr>, rest)"
    using Cons.prems by (intro Cons.IH) (simp_all add: bytesAvailable_def)
  ultimately show ?case by simp
qed

lemma waitFor_rejected:
  "bytesAvailable p + int (length (concat ds)) < int (bytesToRead p) \<Longrightarrow>
   waitFor_readable p (map Data ds @ End # rest)
     = (Rejected InputStreamEndedError, p\<lparr>buffer := buffer p @ concat ds, ended := True\<rparr>, rest)"
proof (induction ds arbitrary: p)
  case Nil
  then show ?case by (simp add: onEnd_def)
next
  case (Cons c ds)
  let ?p = "p\<lparr>buffer := buffer p @ c\<rparr>"
  from Cons.prems have "onData p c = (False, ?p)"
    by (simp add: onData_def bytesAvailable_def)
  moreover have "waitFor_readable ?p (map Data ds @ End # rest)
     = (Rejected InputStreamEndedError, ?p\<lparr>buffer := buffer ?p @ concat ds, ended := True\<rparr>, rest)"
    using Cons.prems by (intro Cons.IH) (simp_all add: bytesAvailable_def)
  ultimately show ?case by simp
qed

lemma waitFor_forever:
  "bytesAvailable p + int (length (concat ds)) < int (bytesToRead p) \<Longrightarrow>
   waitFor_readable p (map Data ds) = (Forever, p\<lparr>buffer := buffer p @ concat ds\<rparr>, [])"
proof (induction ds arbitrary: p)
  case Nil
  then show ?case by simp
next
  case (Cons c ds)
  let ?p = "p\<lparr>buffer := buffer p @ c\<rparr>"
  from Cons.prems have "onData p c = (False, ?p)"
    by (simp add: onData_def bytesAvailable_def)
  moreover have "waitFor_readable ?p (map Data ds)
     = (Forever, ?p\<lparr>buffer := buffer ?p @ concat ds\<rparr>, [])"
    using Cons.prems by (intro Cons.IH) (simp_all add: bytesAvailable_def)
  ultimately show ?case by simp
qed

lemma length_buf_slice:
  "int n \<le> int (length b) - int c \<Longrightarrow> length (buf_slice b c (c + n)) = n"
  by (simp add: buf_slice_def)

text \<open>
  Claim C6. The exact-size read, for every requested size \<open>n\<close>. (1) If at least \<open>n\<close> bytes
  are available it returns the next \<open>n\<close> bytes and moves the cursor by \<open>n\<close>; no event of
  the stream is consumed, so it did not suspend. (2) If fewer are available and the stream
  has ended it throws \<open>InsufficientBytesError\<close> at once and changes nothing. (3) Otherwise
  it records \<open>n\<close> as \<open>bytesToRead\<close> and waits: when the chunks \<open>ds\<close> are still too few
  and the chunk \<open>d\<close> brings enough, it returns the \<open>n\<close> bytes after the cursor (and
  \<open>onData\<close> has put \<open>bytesToRead\<close> back to 0); when the stream ends after \<open>ds\<close> it throws
  \<open>InsufficientBytesError\<close>, \<open>bytesToRead\<close> still \<open>n\<close>; when the stream falls silent
  after \<open>ds\<close> it stays suspended.
\<close>

theorem read_exact_size:
  "(int n \<le> bytesAvailable (self e) \<longrightarrow>
      read n e = (Return (buf_slice (buffer (self e)) (cursor (self e)) (cursor (self e) + n)),
                  e\<lparr>self := (self e)\<lparr>cursor := cursor (self e) + n\<rparr>\<rparr>)
      \<and> length (buf_slice (buffer (self e)) (cursor (self e)) (cursor (self e) + n)) = n)
   \<and> (bytesAvailable (self e) < int n \<and> ended (self e) \<longrightarrow>
        read n e = (Throw InsufficientBytesError, e))
   \<and> (bytesAvailable (self e) < int n \<and> \<not> ended (self e)
        \<and> bytesAvailable (self e) + int (length (concat ds)) < int n \<longrightarrow>
        (events e = map Data ds @ Data d # rest
           \<and> int n \<le> bytesAvailable (self e) + int (length (concat ds)) + int (length d) \<longrightarrow>
           read n e =
             (Return (buf_slice (buffer (self e) @ concat ds @ d) (cursor (self e)) (cursor (self e) + n)),
              e\<lparr>self := (self e)\<lparr>buffer := buffer (self e) @ concat ds @ d,
                                  cursor := cursor (self e) + n, bytesToRead := 0\<rparr>,
                events := rest\<rparr>)
           \<and> length (buf_slice (buffer (self e) @ concat ds @ d) (cursor (self e))
                       (cursor (self e) + n)) = n)
        \<and> (events e = map Data ds @ End # rest \<longrightarrow>
           read n e =
             (Throw InsufficientBytesError,
              e\<lparr>self := (self e)\<lparr>buffer := buffer (self e) @ concat ds,
                                  bytesToRead := n, ended := True\<rparr>,
                events := rest\<rparr>))
        \<and> (events e = map Data ds \<longrightarrow>
           read n e =
             (Hang,
              e\<lparr>self := (self e)\<lparr>buffer := buffer (self e) @ concat ds, bytesToRead := n\<rparr>,
                events := []\<rparr>)))"
proof (intro conjI impI, goal_cases)
  case 1
  then show ?case by (simp add: read_def raw_read_def Let_def)
next
  case 2
  then show ?case by (intro length_buf_slice) (simp add: bytesAvailable_def)
next
  case 3
  then show ?case by (simp add: read_def Let_def)
next
  case 4
  then have "waitFor_readable ((self e)\<lparr>bytesToRead := n\<rparr>) (events e)
      = (Resolved, (self e)\<lparr>bytesToRead := n, buffer := buffer (self e) @ concat ds @ d,
                            bytesToRead := 0\<rparr>, rest)"
    using waitFor_resolved [of "(self e)\<lparr>bytesToRead := n\<rparr>" ds d rest]
    by (simp add: bytesAvailable_def)
  with 4 show ?case by (simp add: read_def raw_read_def Let_def)
next
  case 5
  then show ?case by (intro length_buf_slice) (simp add: bytesAvailable_def)
next
  case 6
  then have "waitFor_readable ((self e)\<lparr>bytesToRead := n\<rparr>) (events e)
      = (Rejected InputStreamEndedError,
         (self e)\<lparr>bytesToRead := n, buffer := buffer (self e) @ concat ds, ended := True\<rparr>, rest)"
    using waitFor_rejected [of "(self e)\<lparr>bytesToRead := n\<rparr>" ds rest]
    by (simp add: bytesAvailable_def)
  with 6 show ?case by (simp add: read_def Let_def)
next
  case 7
  then have "waitFor_readable ((self e)\<lparr>bytesToRead := n\<rparr>) (events e)
      = (Forever, (self e)\<lparr>bytesToRead := n, buffer := buffer (self e) @ concat ds\<rparr>, [])"
    using waitFor_forever [of "(self e)\<lparr>bytesToRead := n\<rparr>" ds]
    by (simp add: bytesAvailable_def)
  with 7 show ?case by (simp add: read_def Let_def)
qed


theorem read_exact_size_witness:
  "read 2 \<lparr>self = \<lparr>buffer = [1, 2, 3], cursor = 1, bytesToRead = 0, ended = False\<rparr>,
            events = [Data [9]], early = []\<rparr>
     = (Return [2, 3],
        \<lparr>self = \<lparr>buffer = [1, 2, 3], cursor = 3, bytesToRead = 0, ended = False\<rparr>,
         events = [Data [9]], early = []\<rparr>)
   \<and> read 2 \<lparr>self = \<lparr>buffer = [1], cursor = 0, bytesToRead = 0, ended = True\<rparr>,
              events = [], early = []\<rparr>
     = (Throw InsufficientBytesError,
        \<lparr>self = \<lparr>buffer = [1], cursor = 0, bytesToRead = 0, ended = True\<rparr>,
         events = [], early = []\<rparr>)
   \<and> read 3 \<lparr>self = \<lparr>buffer = [1], cursor = 0, bytesToRead = 0, ended = False\<rparr>,
              events = [Data [2], Data [3, 4], End], early = []\<rparr>
     = (Return [1, 2, 3],
        \<lparr>self = \<lparr>buffer = [1, 2, 3, 4], cursor = 3, bytesToRead = 0, ended = False\<rparr>,
         events = [End], early = []\<rparr>)
   \<and> read 3 \<lparr>self = \<lparr>buffer = [1], cursor = 0, bytesToRead = 0, ended = False\<rparr>,
              events = [Data [2], End], early = []\<rparr>
     = (Throw InsufficientBytesError,
        \<lparr>self = \<lparr>buffer = [1, 2], cursor = 0, bytesToRead = 3, ended = True\<rparr>,
         events = [], early = []\<rparr>)
   \<and> read 3 \<lparr>self = \<lparr>buffer = [1], cursor = 0, bytesToRead = 0, ended = False\<rparr>,
              events = [Data [2]], early = []\<rparr>
     = (Hang,
        \<lparr>self = \<lparr>buffer = [1, 2], cursor = 0, bytesToRead = 3, ended = False\<rparr>,
         events = [], early = []\<rparr>)"
  using
    read_exact_size [of 2 "\<lparr>self = \<lparr>buffer = [1, 2, 3], cursor = 1, bytesToRead = 0, ended = False\<rparr>,
                          events = [Data [9]], early = []\<rparr>"]
    read_exact_size [of 2 "\<lparr>self = \<lparr>buffer = [1], cursor = 0, bytesToRead = 0, ended = True\<rparr>,
                          events = [], early = []\<rparr>"]
    read_exact_size [of 3 "\<lparr>self = \<lparr>buffer = [1], cursor = 0, bytesToRead = 0, ended = False\<rparr>,
                          events = [Data [2], Data [3, 4], End], early = []\<rparr>" "[[2]]" "[3, 4]" "[End]"]
    read_exact_size [of 3 "\<lparr>self = \<lparr>buffer = [1], cursor = 0, bytesToRead = 0, ended = False\<rparr>,
                          events = [Data [2], End], early = []\<rparr>" "[[2]]" _ "[]"]
    read_exact_size [of 3 "\<lparr>self = \<lparr>buffer = [1], cursor = 0, bytesToRead = 0, ended = False\<rparr>,
                          events = [Data [2]], early = []\<rparr>" "[[2]]"]
  by (simp add: bytesAvailable_def buf_slice_def)

section \<open>The bytes still to come\<close>

text \<open>
  What the decoder will read next does not depend on how the stream was cut into chunks
  or on when the chunks arrived: it is the unread part of the buffer followed by the
  chunks still to be emitted. \<open>ok closing e\<close> says that the environment is one a real
  stream produces: the cursor is inside the buffer, nothing is emitted after \<open>end\<close>, and
  (when \<open>closing\<close> is set) the stream has ended or will end.
\<close>

fun chunk_of :: "event \<Rightarrow> bytes" where
  "chunk_of (Data d) = d"
| "chunk_of End = []"

fun quiet_after_end :: "event list \<Rightarrow> bool" where
  "quiet_after_end [] = True"
| "quiet_after_end (Data d # es) = quiet_after_end es"
| "quiet_after_end (End # es) = (es = [])"

definition streamp :: "parser \<Rightarrow> event list \<Rightarrow> bytes" where
  "streamp p es = drop (cursor p) (buffer p) @ concat (map chunk_of es)"

definition okp :: "bool \<Rightarrow> parser \<Rightarrow> event list \<Rightarrow> bool" where
  "okp closing p es =
     (cursor p \<le> length (buffer p) \<and> quiet_after_end es \<and> (ended p \<longrightarrow> es = [])
      \<and> (closing \<longrightarrow> ended p \<or> End \<in> set es))"

definition stream :: "env \<Rightarrow> bytes" where
  "stream e = streamp (self e) (events e)"

definition ok :: "bool \<Rightarrow> env \<Rightarrow> bool" where
  "ok closing e = okp closing (self e) (events e)"

lemma deliver_okp:
  assumes "okp c p (ev # es)"
  shows "okp c (deliver p ev) es \<and> streamp (deliver p ev) es = streamp p (ev # es)"
  using assms
  by (cases ev) (auto simp: okp_def streamp_def onData_def onEnd_def Let_def)

lemma foldl_deliver_okp:
  "okp c p es \<Longrightarrow>
     okp c (foldl deliver p (take k es)) (drop k es)
     \<and> streamp (foldl deliver p (take k es)) (drop k es) = streamp p es"
proof (induction es arbitrary: p k)
  case Nil
  then show ?case by simp
next
  case (Cons ev es)
  show ?case
  proof (cases k)
    case 0
    with Cons.prems show ?thesis by simp
  next
    case (Suc j)
    from deliver_okp [OF Cons.prems] Cons.IH [of "deliver p ev" j]
    show ?thesis using Suc by simp
  qed
qed

lemma resume_ok: "ok c e \<Longrightarrow> ok c (resume e) \<and> stream (resume e) = stream e"
  using foldl_deliver_okp [of c "self e" "events e"]
  by (cases "early e") (simp_all add: resume_def ok_def stream_def)

lemma waitFor_ok_resolved:
  "okp c p es \<Longrightarrow> bytesAvailable p < int (bytesToRead p) \<Longrightarrow>
   bytesToRead p \<le> length (streamp p es) \<Longrightarrow>
   \<exists>p' es'. waitFor_readable p es = (Resolved, p', es') \<and> okp c p' es'
      \<and> streamp p' es' = streamp p es \<and> int (bytesToRead p) \<le> bytesAvailable p'"
proof (induction es arbitrary: p)
  case Nil
  then show ?case by (auto simp: okp_def streamp_def bytesAvailable_def)
next
  case (Cons ev es)
  show ?case
  proof (cases ev)
    case End
    with Cons.prems show ?thesis by (auto simp: okp_def streamp_def bytesAvailable_def)
  next
    case (Data d)
    let ?p = "p\<lparr>buffer := buffer p @ d\<rparr>"
    from deliver_okp [OF Cons.prems(1)] Data
    have okd: "okp c (snd (onData p d)) es"
      and str: "streamp (snd (onData p d)) es = streamp p (ev # es)"
      by simp_all
    show ?thesis
    proof (cases "fst (onData p d)")
      case True
      then have "onData p d = (True, ?p\<lparr>bytesToRead := 0\<rparr>)"
        and "int (bytesToRead p) \<le> bytesAvailable ?p"
        by (auto simp: onData_def Let_def split: if_splits)
      with okd str Data show ?thesis by (simp add: bytesAvailable_def)
    next
      case False
      then have od: "onData p d = (False, ?p)" and lt: "bytesAvailable ?p < int (bytesToRead p)"
        by (auto simp: onData_def Let_def split: if_splits)
      from Cons.IH [of ?p] okd str od lt Cons.prems(3)
      obtain p' es' where "waitFor_readable ?p es = (Resolved, p', es')" "okp c p' es'"
        "streamp p' es' = streamp ?p es" "int (bytesToRead ?p) \<le> bytesAvailable p'"
        by auto
      with od str Data show ?thesis by simp
    qed
  qed
qed

lemma waitFor_ok_rejected:
  "okp True p es \<Longrightarrow> \<not> ended p \<Longrightarrow> length (streamp p es) < bytesToRead p \<Longrightarrow>
   \<exists>p'. waitFor_readable p es = (Rejected InputStreamEndedError, p', []) \<and> okp True p' []
      \<and> streamp p' [] = streamp p es \<and> ended p'"
proof (induction es arbitrary: p)
  case Nil
  then show ?case by (simp add: okp_def)
next
  case (Cons ev es)
  show ?case
  proof (cases ev)
    case End
    with Cons.prems show ?thesis by (simp add: okp_def streamp_def onEnd_def)
  next
    case (Data d)
    let ?p = "p\<lparr>buffer := buffer p @ d\<rparr>"
    from deliver_okp [OF Cons.prems(1)] Data
    have okd: "okp True (snd (onData p d)) es"
      and str: "streamp (snd (onData p d)) es = streamp p (ev # es)"
      by simp_all
    have "bytesAvailable ?p \<le> int (length (streamp p (ev # es)))"
      using Data Cons.prems(1) by (simp add: streamp_def bytesAvailable_def okp_def)
    with Cons.prems(3) have od: "onData p d = (False, ?p)"
      by (simp add: onData_def Let_def)
    from Cons.IH [of ?p] okd str od Cons.prems(2,3)
    obtain p' where "waitFor_readable ?p es = (Rejected InputStreamEndedError, p', [])"
      "okp True p' []" "streamp p' [] = streamp ?p es" "ended p'"
      by auto
    with od str Data show ?thesis by simp
  qed
qed

lemma raw_read_ok:
  assumes "okp c p es" and "int n \<le> bytesAvailable p"
  shows "fst (raw_read n p) = take n (streamp p es)"
    and "streamp (snd (raw_read n p)) es = drop n (streamp p es)"
    and "okp c (snd (raw_read n p)) es"
proof -
  from assms have "cursor p + n \<le> length (buffer p)"
    by (simp add: bytesAvailable_def okp_def)
  with assms(1) show "fst (raw_read n p) = take n (streamp p es)"
    and "streamp (snd (raw_read n p)) es = drop n (streamp p es)"
    and "okp c (snd (raw_read n p)) es"
    by (simp_all add: raw_read_def Let_def okp_def streamp_def buf_slice_def add.commute)
qed

lemma read_return:
  assumes ok: "ok c e" and str: "stream e = a @ rest" and len: "length a = n"
  shows "\<exists>e'. read n e = (Return a, e') \<and> ok c e' \<and> stream e' = rest"
proof -
  from str len have a: "take n (stream e) = a" and rest: "drop n (stream e) = rest"
    by simp_all
  from str len have n_le: "n \<le> length (stream e)" by simp
  let ?p = "self e"
  show ?thesis
  proof (cases "bytesAvailable ?p < int n")
    case False
    then have "int n \<le> bytesAvailable ?p" by simp
    from raw_read_ok [OF ok [unfolded ok_def] this] a rest False
    show ?thesis
      by (cases "raw_read n ?p") (simp add: read_def Let_def ok_def stream_def)
  next
    case True
    with ok n_le have ne: "\<not> ended ?p"
      by (auto simp: ok_def okp_def stream_def streamp_def bytesAvailable_def)
    let ?q = "?p\<lparr>bytesToRead := n\<rparr>"
    have "okp c ?q (events e)" "bytesAvailable ?q < int (bytesToRead ?q)"
      "bytesToRead ?q \<le> length (streamp ?q (events e))"
      using ok True n_le by (simp_all add: ok_def okp_def stream_def streamp_def bytesAvailable_def)
    from waitFor_ok_resolved [OF this]
    obtain p' es' where w: "waitFor_readable ?q (events e) = (Resolved, p', es')"
      and okp': "okp c p' es'" and str': "streamp p' es' = streamp ?q (events e)"
      and enough: "int n \<le> bytesAvailable p'"
      by auto
    have "streamp p' es' = stream e"
      using str' by (simp add: stream_def streamp_def)
    with raw_read_ok [OF okp' enough] a rest True ne w
    show ?thesis
      by (cases "raw_read n p'") (simp add: read_def Let_def ok_def stream_def)
  qed
qed

lemma read_throw:
  assumes ok: "ok True e" and short: "length (stream e) < n"
  shows "\<exists>e'. read n e = (Throw InsufficientBytesError, e') \<and> ok True e'
           \<and> stream e' = stream e \<and> bytesAvailable (self e') = int (length (stream e))"
proof -
  let ?p = "self e"
  from ok short have lt: "bytesAvailable ?p < int n"
    by (simp add: ok_def okp_def stream_def streamp_def bytesAvailable_def)
  show ?thesis
  proof (cases "ended ?p")
    case True
    with ok lt show ?thesis
      by (simp add: read_def Let_def ok_def okp_def stream_def streamp_def bytesAvailable_def)
  next
    case False
    let ?q = "?p\<lparr>bytesToRead := n\<rparr>"
    have "okp True ?q (events e)" "\<not> ended ?q" "length (streamp ?q (events e)) < bytesToRead ?q"
      using ok False short by (simp_all add: ok_def okp_def stream_def streamp_def)
    from waitFor_ok_rejected [OF this]
    obtain p' where w: "waitFor_readable ?q (events e) = (Rejected InputStreamEndedError, p', [])"
      and okp': "okp True p' []" and str': "streamp p' [] = streamp ?q (events e)"
      by auto
    have "streamp p' [] = stream e"
      using str' by (simp add: stream_def streamp_def)
    moreover have "bytesAvailable p' = int (length (streamp p' []))"
      using okp' by (simp add: okp_def streamp_def bytesAvailable_def)
    ultimately show ?thesis
      using okp' lt False w
      by (simp add: read_def Let_def ok_def stream_def)
  qed
qed

section \<open>Frames on the wire\<close>

text \<open>
  The layout of a frame as the decoder expects it: the payload length and the header
  size as little-endian 16-bit numbers, \<open>pid\<close>, \<open>tid\<close>, \<open>sec\<close> and \<open>nsec\<close> as
  little-endian signed 32-bit numbers, a 32-bit id when the header size is 24, then the
  payload. A well-formed frame has a header size of 0 or 24, fields in range and a
  payload that starts with a priority byte other than 0.
\<close>

definition le16 :: "nat \<Rightarrow> bytes" where
  "le16 n = [of_nat n, of_nat (n div 256)]"

definition le32 :: "nat \<Rightarrow> bytes" where
  "le32 n = [of_nat n, of_nat (n div 256), of_nat (n div 65536), of_nat (n div 16777216)]"

definition le32s :: "int \<Rightarrow> bytes" where
  "le32s v = le32 (nat (v mod 4294967296))"

record wire =
  w_headerSize :: nat
  w_pid :: int
  w_tid :: int
  w_sec :: int
  w_nsec :: int
  w_id :: nat
  w_payload :: bytes

definition int32 :: "int \<Rightarrow> bool" where
  "int32 v = (- 2147483648 \<le> v \<and> v < 2147483648)"

definition wf_header :: "wire \<Rightarrow> bool" where
  "wf_header w =
     ((w_headerSize w = 0 \<or> w_headerSize w = 24)
      \<and> int32 (w_pid w) \<and> int32 (w_tid w) \<and> int32 (w_sec w) \<and> int32 (w_nsec w)
      \<and> w_id w < 4294967296)"

definition wf_wire :: "wire \<Rightarrow> bool" where
  "wf_wire w =
     (wf_header w \<and> w_payload w \<noteq> [] \<and> hd (w_payload w) \<noteq> 0
      \<and> length (w_payload w) < 65536)"

definition header_bytes :: "nat \<Rightarrow> wire \<Rightarrow> bytes" where
  "header_bytes len w =
     le16 len @ le16 (w_headerSize w) @ le32s (w_pid w) @ le32s (w_tid w) @ le32s (w_sec w)
     @ le32s (w_nsec w) @ (if w_headerSize w = 24 then le32 (w_id w) else [])"

definition encode :: "wire \<Rightarrow> bytes" where
  "encode w = header_bytes (length (w_payload w)) w @ w_payload w"

text \<open>
  The record a frame stands for: the tag is what follows the priority byte up to the
  first null byte, the message is what follows that null byte, without the last byte of
  the payload when that is null. \<open>entry_id\<close> is as \<open>if(id)\<close> leaves it.
\<close>

definition entry_of :: "wire \<Rightarrow> logEntry" where
  "entry_of w =
     (let payload = w_payload w;
          after = dropWhile (\<lambda>b. b \<noteq> 0) (tl payload);
          m = drop 1 after
      in \<lparr>pid = w_pid w, tid = w_tid w, sec = w_sec w, nsec = w_nsec w,
          entry_id = (if w_headerSize w = 24 \<and> w_id w \<noteq> 0 then Some (w_id w) else None),
          priority = Some (unat (hd payload)),
          tag = takeWhile (\<lambda>b. b \<noteq> 0) (tl payload),
          msg = (if last payload = 0 then butlast m else m)\<rparr>)"

lemma unat_byte_of_nat: "unat (of_nat n :: byte) = n mod 256"
  by (simp add: unat_of_nat)

lemma readUInt16LE_le16: "n < 65536 \<Longrightarrow> readUInt16LE (le16 n) = n"
  by (simp add: readUInt16LE_def le16_def unat_byte_of_nat)

lemma readUInt32LE_le32:
  assumes "n < 4294967296"
  shows "readUInt32LE (le32 n) = n"
proof -
  let ?a = "n div 256"
  let ?b = "?a div 256"
  let ?c = "?b div 256"
  have b: "n div 65536 = ?b" and c: "n div 16777216 = ?c"
    by (simp_all add: div_mult2_eq)
  from assms have "?c < 256" by simp
  then have c_mod: "?c mod 256 = ?c" by simp
  have "n = 256 * ?a + n mod 256" "?a = 256 * ?b + ?a mod 256" "?b = 256 * ?c + ?b mod 256"
    by simp_all
  then have "n mod 256 + 256 * (?a mod 256) + 65536 * (?b mod 256) + 16777216 * ?c = n"
    by linarith
  then show ?thesis
    by (simp add: readUInt32LE_def le32_def unat_byte_of_nat b c c_mod)
qed

lemma mod_int32:
  assumes "int32 v"
  shows "v mod 4294967296 = (if 0 \<le> v then v else v + 4294967296)"
proof (cases "0 \<le> v")
  case True
  with assms show ?thesis by (simp add: int32_def)
next
  case False
  with assms have "(v + 4294967296) mod 4294967296 = v + 4294967296"
    by (intro mod_pos_pos_trivial) (simp_all add: int32_def)
  with False show ?thesis by simp
qed

lemma readInt32LE_le32s: "int32 v \<Longrightarrow> readInt32LE (le32s v) = v"
proof -
  assume v: "int32 v"
  let ?n = "nat (v mod 4294967296)"
  have "?n < 4294967296" by simp
  then have "readUInt32LE (le32 ?n) = ?n" by (rule readUInt32LE_le32)
  then have "int (readUInt32LE (le32s v)) = v mod 4294967296"
    by (simp add: le32s_def)
  with v show ?thesis
    by (auto simp: readInt32LE_def Let_def mod_int32) (simp_all add: int32_def)
qed

lemma length_le [simp]: "length (le16 n) = 2" "length (le32 n) = 4" "length (le32s v) = 4"
  by (simp_all add: le16_def le32_def le32s_def)

section \<open>Decoding well-formed frames\<close>

lemma step_read:
  assumes "ok c e" and "stream e = a @ rest" and "length a = n"
  shows "\<exists>e'. ok c e' \<and> stream e' = rest \<and> read n (resume e) = (Return a, e')"
proof -
  from resume_ok [OF assms(1)] assms(2)
  have "ok c (resume e)" "stream (resume e) = a @ rest" by simp_all
  from read_return [OF this assms(3)] show ?thesis by blast
qed

lemma first_readUInt16:
  assumes "ok c e" and "stream e = le16 n @ rest" and "n < 65536"
  shows "\<exists>e'. ok c e' \<and> stream e' = rest \<and> readUInt16 e = (Return n, e')"
proof -
  from read_return [OF assms(1,2)] obtain e'
    where "read 2 e = (Return (le16 n), e')" "ok c e'" "stream e' = rest" by auto
  with assms(3) show ?thesis
    by (simp add: readUInt16_def await_def readUInt16LE_le16)
qed

lemma step_readUInt16:
  assumes "ok c e" and "stream e = le16 n @ rest" and "n < 65536"
  shows "\<exists>e'. ok c e' \<and> stream e' = rest \<and> readUInt16 (resume e) = (Return n, e')"
proof -
  from resume_ok [OF assms(1)] assms(2)
  have "ok c (resume e)" "stream (resume e) = le16 n @ rest" by simp_all
  from first_readUInt16 [OF this assms(3)] show ?thesis .
qed

lemma step_readUInt32:
  assumes "ok c e" and "stream e = le32 n @ rest" and "n < 4294967296"
  shows "\<exists>e'. ok c e' \<and> stream e' = rest \<and> readUInt32 (resume e) = (Return n, e')"
proof -
  from step_read [OF assms(1,2)] obtain e'
    where "read 4 (resume e) = (Return (le32 n), e')" "ok c e'" "stream e' = rest" by auto
  with assms(3) show ?thesis
    by (simp add: readUInt32_def await_def readUInt32LE_le32)
qed

lemma step_readInt32:
  assumes "ok c e" and "stream e = le32s v @ rest" and "int32 v"
  shows "\<exists>e'. ok c e' \<and> stream e' = rest \<and> readInt32 (resume e) = (Return v, e')"
proof -
  from step_read [OF assms(1,2)] obtain e'
    where "read 4 (resume e) = (Return (le32s v), e')" "ok c e'" "stream e' = rest" by auto
  with assms(3) show ?thesis
    by (simp add: readInt32_def await_def readInt32LE_le32s)
qed

definition frame_of :: "wire \<Rightarrow> nat option \<times> nat \<times> bytes \<Rightarrow> frame" where
  "frame_of w x =
     (case x of (p, i, pl) \<Rightarrow>
        \<lparr>f_pid = w_pid w, f_tid = w_tid w, f_sec = w_sec w, f_nsec = w_nsec w,
         f_id = (if w_headerSize w = 24 then Some (w_id w) else None),
         f_priority = p, f_priorityIndex = i, f_payload = pl\<rparr>)"

lemma readFrame_header:
  assumes ok: "ok c e" and str: "stream e = header_bytes len w @ rest"
    and wf: "wf_header w" and len: "len < 65536"
  shows "\<exists>e7. ok c e7 \<and> stream e7 = rest
           \<and> readFrame tryRecover e = await (readPayload len e7) (\<lambda>x e10. (Return (frame_of w x), e10))"
proof -
  let ?id = "if w_headerSize w = 24 then le32 (w_id w) else []"
  from wf have hs: "w_headerSize w < 65536" by (auto simp: wf_header_def)
  from str have "stream e = le16 len @ le16 (w_headerSize w) @ le32s (w_pid w) @ le32s (w_tid w)
      @ le32s (w_sec w) @ le32s (w_nsec w) @ ?id @ rest"
    by (simp add: header_bytes_def)
  from first_readUInt16 [OF ok this len] obtain e1 where e1: "ok c e1"
    "stream e1 = le16 (w_headerSize w) @ le32s (w_pid w) @ le32s (w_tid w)
      @ le32s (w_sec w) @ le32s (w_nsec w) @ ?id @ rest"
    and r1: "readUInt16 e = (Return len, e1)" by blast
  from step_readUInt16 [OF e1 hs] obtain e2 where e2: "ok c e2"
    "stream e2 = le32s (w_pid w) @ le32s (w_tid w) @ le32s (w_sec w) @ le32s (w_nsec w) @ ?id @ rest"
    and r2: "readUInt16 (resume e1) = (Return (w_headerSize w), e2)" by blast
  from wf have i: "int32 (w_pid w)" "int32 (w_tid w)" "int32 (w_sec w)" "int32 (w_nsec w)"
    by (simp_all add: wf_header_def)
  from step_readInt32 [OF e2 i(1)] obtain e3 where e3: "ok c e3"
    "stream e3 = le32s (w_tid w) @ le32s (w_sec w) @ le32s (w_nsec w) @ ?id @ rest"
    and r3: "readInt32 (resume e2) = (Return (w_pid w), e3)" by blast
  from step_readInt32 [OF e3 i(2)] obtain e4 where e4: "ok c e4"
    "stream e4 = le32s (w_sec w) @ le32s (w_nsec w) @ ?id @ rest"
    and r4: "readInt32 (resume e3) = (Return (w_tid w), e4)" by blast
  from step_readInt32 [OF e4 i(3)] obtain e5 where e5: "ok c e5"
    "stream e5 = le32s (w_nsec w) @ ?id @ rest"
    and r5: "readInt32 (resume e4) = (Return (w_sec w), e5)" by blast
  from step_readInt32 [OF e5 i(4)] obtain e6 where e6: "ok c e6"
    "stream e6 = ?id @ rest"
    and r6: "readInt32 (resume e5) = (Return (w_nsec w), e6)" by blast
  note rs = r1 r2 r3 r4 r5 r6
  show ?thesis
  proof (cases "w_headerSize w = 24")
    case True
    from wf have "w_id w < 4294967296" by (simp add: wf_header_def)
    with step_readUInt32 [OF e6(1), of "w_id w" rest] e6(2) True
    obtain e7 where e7: "ok c e7" "stream e7 = rest"
      and r7: "readUInt32 (resume e6) = (Return (w_id w), e7)" by auto
    have "readFrame tryRecover e
        = await (readPayload len e7) (\<lambda>x e10. (Return (frame_of w x), e10))"
      by (simp add: readFrame_def rs r7 await_def True frame_of_def
          split: prod.splits completion.splits)
    with e7 show ?thesis by blast
  next
    case False
    with wf have z: "w_headerSize w = 0" by (simp add: wf_header_def)
    have "readFrame tryRecover e
        = await (readPayload len e6) (\<lambda>x e10. (Return (frame_of w x), e10))"
      by (simp add: readFrame_def rs await_def z frame_of_def
          split: prod.splits completion.splits)
    with e6 z show ?thesis by auto
  qed
qed

lemma readPayload_plain:
  assumes ok: "ok c e" and str: "stream e = pl @ rest" and ne: "pl \<noteq> []" and pr: "hd pl \<noteq> 0"
  shows "\<exists>e'. ok c e' \<and> stream e' = rest
           \<and> readPayload (length pl) e = (Return (Some (unat (hd pl)), 1, pl), e')"
proof -
  from step_read [OF ok str refl] obtain e' where e': "ok c e'" "stream e' = rest"
    and r: "read (length pl) (resume e) = (Return pl, e')" by blast
  from ne pr have b: "byteAt pl 0 = Some (unat (hd pl))" "unat (hd pl) \<noteq> 0"
    by (simp_all add: byteAt_def hd_conv_nth unat_eq_0)
  then have "scanPadding (length pl) (byteAt pl 0) 1 pl e' = (Return (Some (unat (hd pl)), 1, pl), e')"
    by (simp add: scanPadding.simps)
  with r have "readPayload (length pl) e = (Return (Some (unat (hd pl)), 1, pl), e')"
    by (simp add: readPayload_def await_def)
  with e' show ?thesis by blast
qed

lemma readPayload_empty:
  assumes ok: "ok c e"
  shows "\<exists>e'. ok c e' \<and> stream e' = stream e \<and> readPayload 0 e = (Return (None, 1, []), e')"
proof -
  from step_read [OF ok, of "[]" "stream e" 0] obtain e' where e': "ok c e'" "stream e' = stream e"
    and r: "read 0 (resume e) = (Return [], e')" by auto
  have "scanPadding 0 (byteAt [] 0) 1 [] e' = (Return (None, 1, []), e')"
    by (simp add: scanPadding.simps byteAt_def)
  with r have "readPayload 0 e = (Return (None, 1, []), e')"
    by (simp add: readPayload_def await_def byteAt_def)
  with e' show ?thesis by blast
qed

lemma roll_ok:
  assumes "ok c e"
  shows "ok c (e\<lparr>self := rollBuffer (self e)\<rparr>)"
    and "stream (e\<lparr>self := rollBuffer (self e)\<rparr>) = stream e"
  using assms by (simp_all add: ok_def okp_def stream_def streamp_def rollBuffer_def)

lemma find_append_first:
  "find P (xs @ ys) = (case find P xs of None \<Rightarrow> find P ys | Some x \<Rightarrow> Some x)"
  by (induction xs) simp_all

lemma indexOf_byte_first:
  assumes "start \<le> i" and "i < length b" and "b ! i = v"
    and "\<And>j. start \<le> j \<Longrightarrow> j < i \<Longrightarrow> b ! j \<noteq> v"
  shows "indexOf_byte b v start = Some i"
proof -
  have "[start..<i + (length b - i)] = [start..<i] @ [i..<i + (length b - i)]"
    using assms(1) by (rule upt_add_eq_append)
  then have "[start..<length b] = [start..<i] @ i # [Suc i..<length b]"
    using assms(2) by (simp add: upt_conv_Cons)
  moreover have "find (\<lambda>k. b ! k = v) [start..<i] = None"
    using assms(4) by (simp add: find_None_iff)
  ultimately show ?thesis
    using assms(3) by (simp add: indexOf_byte_def find_append_first del: upt.simps)
qed

lemma indexOf_byte_none:
  assumes "\<And>j. start \<le> j \<Longrightarrow> j < length b \<Longrightarrow> b ! j \<noteq> v"
  shows "indexOf_byte b v start = None"
  using assms by (simp add: indexOf_byte_def find_None_iff)

lemma payload_with_separator:
  assumes "0 \<notin> set tg"
  shows "indexOf_byte (p # tg @ 0 # r) 0 (Suc 0) = Some (Suc (length tg))"
    and "buf_slice (p # tg @ 0 # r) (Suc 0) (Suc (length tg)) = tg"
    and "buf_slice (p # tg @ 0 # r) (Suc (Suc (length tg))) (Suc (Suc (length tg + length r))) = r"
    and "buf_slice (p # tg @ 0 # r) (Suc (Suc (length tg))) (Suc (length tg + length r)) = butlast r"
    and "takeWhile (\<lambda>b. b \<noteq> 0) (tg @ 0 # r) = tg"
    and "dropWhile (\<lambda>b. b \<noteq> 0) (tg @ 0 # r) = 0 # r"
proof -
  show "indexOf_byte (p # tg @ 0 # r) 0 (Suc 0) = Some (Suc (length tg))"
  proof (rule indexOf_byte_first)
    show "(p # tg @ 0 # r) ! Suc (length tg) = 0" by (simp add: nth_append)
    show "Suc (length tg) < length (p # tg @ 0 # r)" by simp
    show "Suc 0 \<le> Suc (length tg)" by simp
    fix j assume "Suc 0 \<le> j" "j < Suc (length tg)"
    then have "(p # tg @ 0 # r) ! j = tg ! (j - 1)" "j - 1 < length tg"
      by (auto simp: nth_append nth_Cons')
    with assms show "(p # tg @ 0 # r) ! j \<noteq> 0" by (metis nth_mem)
  qed
  show "buf_slice (p # tg @ 0 # r) (Suc 0) (Suc (length tg)) = tg"
    by (simp add: buf_slice_def)
  show "buf_slice (p # tg @ 0 # r) (Suc (Suc (length tg))) (Suc (Suc (length tg + length r))) = r"
    by (simp add: buf_slice_def)
  show "buf_slice (p # tg @ 0 # r) (Suc (Suc (length tg))) (Suc (length tg + length r)) = butlast r"
    by (simp add: buf_slice_def butlast_conv_take)
  from assms have nz: "\<forall>x\<in>set tg. x \<noteq> 0" by auto
  then show "takeWhile (\<lambda>b. b \<noteq> 0) (tg @ 0 # r) = tg"
    by (induction tg) simp_all
  from nz show "dropWhile (\<lambda>b. b \<noteq> 0) (tg @ 0 # r) = 0 # r"
    by (induction tg) simp_all
qed

lemma payload_without_separator:
  assumes "0 \<notin> set t"
  shows "indexOf_byte (p # t) 0 (Suc 0) = None"
    and "takeWhile (\<lambda>b. b \<noteq> 0) t = t"
    and "dropWhile (\<lambda>b. b \<noteq> 0) t = []"
proof -
  show "indexOf_byte (p # t) 0 (Suc 0) = None"
  proof (rule indexOf_byte_none)
    fix j assume "Suc 0 \<le> j" "j < length (p # t)"
    then have "(p # t) ! j = t ! (j - 1)" "j - 1 < length t"
      by (simp_all add: nth_Cons')
    with assms show "(p # t) ! j \<noteq> 0" by (metis nth_mem)
  qed
  from assms have nz: "\<forall>x\<in>set t. x \<noteq> 0" by auto
  then show "takeWhile (\<lambda>b. b \<noteq> 0) t = t" "dropWhile (\<lambda>b. b \<noteq> 0) t = []"
    by (induction t) simp_all
qed

lemma makeEntry_wire:
  assumes ne: "w_payload w \<noteq> []"
  shows "makeEntry (frame_of w (Some (unat (hd (w_payload w))), 1, w_payload w)) = entry_of w"
proof -
  obtain p t where pl: "w_payload w = p # t" using ne by (cases "w_payload w") auto
  show ?thesis
  proof (cases "0 \<in> set t")
    case False
    note parts = payload_without_separator [OF False]
    show ?thesis
      by (simp add: makeEntry_def frame_of_def entry_of_def Let_def pl buf_slice_def parts)
  next
    case True
    then obtain tg r where t: "t = tg @ 0 # r" and tg: "0 \<notin> set tg"
      by (auto dest: split_list_first)
    note parts = payload_with_separator [OF tg]
    show ?thesis
      by (simp add: makeEntry_def frame_of_def entry_of_def Let_def pl t parts)
  qed
qed

lemma iteration_wire:
  assumes ok: "ok c e" and str: "stream e = encode w @ rest" and wf: "wf_wire w"
  shows "\<exists>e'. ok c e' \<and> stream e' = rest \<and> iteration tryRecover e = (Return (entry_of w), e')"
proof -
  let ?pl = "w_payload w"
  from wf have h: "wf_header w" and len: "length ?pl < 65536" and ne: "?pl \<noteq> []"
    and pr: "hd ?pl \<noteq> 0"
    by (simp_all add: wf_wire_def)
  from str have "stream e = header_bytes (length ?pl) w @ ?pl @ rest"
    by (simp add: encode_def)
  from readFrame_header [OF ok this h len, of tryRecover] obtain e7 where e7: "ok c e7"
    "stream e7 = ?pl @ rest"
    and rf: "readFrame tryRecover e
              = await (readPayload (length ?pl) e7) (\<lambda>x e10. (Return (frame_of w x), e10))"
    by blast
  from readPayload_plain [OF e7 ne pr] obtain e10 where e10: "ok c e10" "stream e10 = rest"
    and rp: "readPayload (length ?pl) e7 = (Return (Some (unat (hd ?pl)), 1, ?pl), e10)"
    by blast
  from rf rp makeEntry_wire [OF ne]
  have "iteration tryRecover e = (Return (entry_of w), e10\<lparr>self := rollBuffer (self e10)\<rparr>)"
    by (simp add: iteration_def await_def)
  with roll_ok [OF e10(1)] e10(2) show ?thesis by auto
qed

lemma loop_condition:
  assumes "ok c e" and "stream e \<noteq> []"
  shows "\<not> ended (self e) \<or> bytesAvailable (self e) \<noteq> 0"
  using assms by (auto simp: ok_def okp_def stream_def streamp_def bytesAvailable_def)

lemma encode_nonempty: "encode w \<noteq> []"
  by (simp add: encode_def header_bytes_def le16_def)

lemma decodeLoop_step:
  assumes ok: "ok c e" and str: "stream e = encode w @ rest" and wf: "wf_wire w"
  shows "\<exists>e1. ok c e1 \<and> stream e1 = rest
           \<and> decodeLoop tryRecover e
               = (case decodeLoop tryRecover e1 of (es, r, e2) \<Rightarrow> (entry_of w # es, r, e2))"
proof -
  from resume_ok [OF ok] str have ok0: "ok c (resume e)" and str0: "stream (resume e) = encode w @ rest"
    by simp_all
  from str0 have "stream (resume e) \<noteq> []" by (simp add: encode_nonempty)
  from loop_condition [OF ok0 this]
  have cond: "\<not> ended (self (resume e)) \<or> bytesAvailable (self (resume e)) \<noteq> 0" .
  from iteration_wire [OF ok0 str0 wf, of tryRecover] obtain e1 where e1: "ok c e1" "stream e1 = rest"
    and it: "iteration tryRecover (resume e) = (Return (entry_of w), e1)" by blast
  have "decodeLoop tryRecover e
      = (case decodeLoop tryRecover e1 of (es, r, e2) \<Rightarrow> (entry_of w # es, r, e2))"
    using cond it by (subst decodeLoop.simps) (auto simp: Let_def)
  with e1 show ?thesis by blast
qed

lemma decodeLoop_frames:
  assumes "ok c e" and "stream e = concat (map encode ws) @ rest" and "list_all wf_wire ws"
  shows "\<exists>e1. ok c e1 \<and> stream e1 = rest
           \<and> decodeLoop tryRecover e
               = (case decodeLoop tryRecover e1 of (es, r, e2) \<Rightarrow> (map entry_of ws @ es, r, e2))"
  using assms
proof (induction ws arbitrary: e)
  case Nil
  then show ?case by (intro exI [of _ e]) (simp split: prod.splits)
next
  case (Cons w ws)
  from Cons.prems have str: "stream e = encode w @ concat (map encode ws) @ rest"
    and wf: "wf_wire w" and wfs: "list_all wf_wire ws"
    by simp_all
  from decodeLoop_step [OF Cons.prems(1) str wf, of tryRecover] obtain e1 where e1: "ok c e1"
    "stream e1 = concat (map encode ws) @ rest"
    and d1: "decodeLoop tryRecover e
               = (case decodeLoop tryRecover e1 of (es, r, e2) \<Rightarrow> (entry_of w # es, r, e2))"
    by blast
  from Cons.IH [OF e1 wfs] obtain e2 where e2: "ok c e2" "stream e2 = rest"
    and d2: "decodeLoop tryRecover e1
               = (case decodeLoop tryRecover e2 of (es, r, e3) \<Rightarrow> (map entry_of ws @ es, r, e3))"
    by blast
  have "decodeLoop tryRecover e
      = (case decodeLoop tryRecover e2 of (es, r, e3) \<Rightarrow> (map entry_of (w # ws) @ es, r, e3))"
    by (simp add: d1 d2 split: prod.splits)
  with e2 show ?case by blast
qed

lemma readFrame_at_end:
  assumes ok: "ok True e" and str: "stream e = []"
  shows "\<exists>e'. readFrame tryRecover e = (Break, e')"
proof -
  from read_throw [OF ok, of 2] str obtain e'
    where "read 2 e = (Throw InsufficientBytesError, e')" "bytesAvailable (self e') = 0"
    by auto
  then show ?thesis
    by (simp add: readFrame_def readUInt16_def await_def)
qed

lemma decodeLoop_at_end:
  assumes ok: "ok True e" and str: "stream e = []"
  shows "\<exists>e'. decodeLoop tryRecover e = ([], Return (), e')"
proof -
  from resume_ok [OF ok] str have ok0: "ok True (resume e)" and str0: "stream (resume e) = []"
    by simp_all
  from readFrame_at_end [OF ok0 str0, of tryRecover] obtain e'
    where "readFrame tryRecover (resume e) = (Break, e')" by blast
  then have "iteration tryRecover (resume e) = (Break, e')"
    by (simp add: iteration_def await_def)
  then show ?thesis
    by (subst decodeLoop.simps) (auto simp: Let_def)
qed

lemma attached_ok: "ok c (attached chunks sched)"
  by (induction chunks) (simp_all add: attached_def ok_def okp_def)

lemma attached_stream: "stream (attached chunks sched) = concat chunks"
  by (induction chunks) (simp_all add: attached_def stream_def streamp_def)

lemma asIterator_frames:
  assumes "ok True e" and "stream e = concat (map encode ws)" and "list_all wf_wire ws"
  shows "\<exists>e'. asIterator noError tryRecover e = (map entry_of ws, Finished, e')"
proof -
  from decodeLoop_frames [OF assms(1) _ assms(3), of "[]" tryRecover] assms(2)
  obtain e1 where e1: "ok True e1" "stream e1 = []"
    and d1: "decodeLoop tryRecover e
               = (case decodeLoop tryRecover e1 of (es, r, e2) \<Rightarrow> (map entry_of ws @ es, r, e2))"
    by auto
  from decodeLoop_at_end [OF e1, of tryRecover] obtain e2
    where "decodeLoop tryRecover e1 = ([], Return (), e2)" by blast
  with d1 have "decodeLoop tryRecover e = (map entry_of ws, Return (), e2)" by simp
  then show ?thesis by (simp add: asIterator_def)
qed

text \<open>
  Claim C1. Take any byte stream that is the concatenation of \<open>N\<close> well-formed frames,
  cut it into chunks in any way (\<open>chunks\<close> is any list whose concatenation is the stream,
  so a cut may fall inside an integer field), and let the chunks arrive on any schedule.
  Then \<open>asIterator\<close> yields exactly the \<open>N\<close> records of the frames, in order, and ends
  cleanly; the same stream delivered as one chunk yields the same records and ends the
  same way.
\<close>

theorem chunking_independent:
  assumes "list_all wf_wire ws" and "concat chunks = concat (map encode ws)"
  shows "fst (asIterator noError tryRecover (attached chunks sched)) = map entry_of ws
       \<and> length (fst (asIterator noError tryRecover (attached chunks sched))) = length ws
       \<and> fst (snd (asIterator noError tryRecover (attached chunks sched))) = Finished
       \<and> fst (asIterator noError tryRecover (attached chunks sched))
           = fst (asIterator noError tryRecover (attached [concat chunks] sched'))
       \<and> fst (snd (asIterator noError tryRecover (attached chunks sched)))
           = fst (snd (asIterator noError tryRecover (attached [concat chunks] sched')))"
proof -
  from asIterator_frames [OF attached_ok _ assms(1), of chunks sched noError tryRecover]
  obtain e' where a: "asIterator noError tryRecover (attached chunks sched)
      = (map entry_of ws, Finished, e')"
    by (auto simp: attached_stream assms(2))
  from asIterator_frames [OF attached_ok _ assms(1), of "[concat chunks]" sched' noError tryRecover]
  obtain e'' where b: "asIterator noError tryRecover (attached [concat chunks] sched')
      = (map entry_of ws, Finished, e'')"
    by (auto simp: attached_stream assms(2))
  show ?thesis by (simp add: a b)
qed

text \<open>Two frames for the examples: one of each header variant.\<close>

definition wire1 :: wire where
  "wire1 = \<lparr>w_headerSize = 0, w_pid = 1, w_tid = 2, w_sec = 3, w_nsec = 4, w_id = 0,
            w_payload = [0x04, 0x74, 0x65, 0x73, 0x74, 0x00]\<rparr>"

definition wire2 :: wire where
  "wire2 = \<lparr>w_headerSize = 24, w_pid = 300, w_tid = - 1, w_sec = 1600000000, w_nsec = 999999999,
            w_id = 10007, w_payload = [0x06, 0x41, 0x00, 0x68, 0x69, 0x00]\<rparr>"

theorem chunking_independent_witness:
  "fst (asIterator False False
          (attached [[6, 0, 0, 0, 1], [0, 0, 0, 2, 0, 0, 0, 3, 0, 0],
                     [0, 4, 0, 0, 0, 4, 116, 101, 115, 116, 0, 6, 0, 24],
                     [0, 44, 1, 0, 0, 255, 255, 255, 255, 0, 16, 94, 95, 255, 201, 154, 59,
                      23, 39, 0, 0, 6, 65, 0, 104, 105, 0]] [1, 0, 2]))
     = [\<lparr>pid = 1, tid = 2, sec = 3, nsec = 4, entry_id = None, priority = Some 4,
          tag = [116, 101, 115, 116], msg = []\<rparr>,
        \<lparr>pid = 300, tid = - 1, sec = 1600000000, nsec = 999999999, entry_id = Some 10007,
          priority = Some 6, tag = [65], msg = [104, 105]\<rparr>]
   \<and> fst (snd (asIterator False False
          (attached [[6, 0, 0, 0, 1], [0, 0, 0, 2, 0, 0, 0, 3, 0, 0],
                     [0, 4, 0, 0, 0, 4, 116, 101, 115, 116, 0, 6, 0, 24],
                     [0, 44, 1, 0, 0, 255, 255, 255, 255, 0, 16, 94, 95, 255, 201, 154, 59,
                      23, 39, 0, 0, 6, 65, 0, 104, 105, 0]] [1, 0, 2]))) = Finished"
  using chunking_independent [of "[wire1, wire2]"
      "[[6, 0, 0, 0, 1], [0, 0, 0, 2, 0, 0, 0, 3, 0, 0],
        [0, 4, 0, 0, 0, 4, 116, 101, 115, 116, 0, 6, 0, 24],
        [0, 44, 1, 0, 0, 255, 255, 255, 255, 0, 16, 94, 95, 255, 201, 154, 59,
         23, 39, 0, 0, 6, 65, 0, 104, 105, 0]]" False False "[1, 0, 2]" "[]"]
  by (simp add: wire1_def wire2_def wf_wire_def wf_header_def int32_def encode_def
      header_bytes_def le16_def le32_def le32s_def entry_of_def)

section \<open>Truncated streams, invalid headers, empty payloads\<close>

lemma trunc_read:
  assumes ok: "ok True e" and str: "stream e = take k (a @ rest)"
  obtains (short) e' where "k < length a"
      and "read (length a) (resume e) = (Throw InsufficientBytesError, e')"
    | (enough) e' where "length a \<le> k" and "ok True e'" and "stream e' = take (k - length a) rest"
      and "read (length a) (resume e) = (Return a, e')"
proof (cases "k < length a")
  case True
  from resume_ok [OF ok] str have ok0: "ok True (resume e)" and "stream (resume e) = take k a"
    using True by simp_all
  with True have "length (stream (resume e)) < length a" by simp
  from read_throw [OF ok0 this] obtain e'
    where "read (length a) (resume e) = (Throw InsufficientBytesError, e')" by blast
  with True show ?thesis by (rule short)
next
  case False
  then have "stream e = a @ take (k - length a) rest" using str by simp
  from step_read [OF ok this refl] obtain e' where "ok True e'"
    "stream e' = take (k - length a) rest" "read (length a) (resume e) = (Return a, e')"
    by blast
  with False show ?thesis by (intro enough [of e']) simp_all
qed

lemma trunc_readUInt16:
  assumes "ok True e" and "stream e = take k (le16 n @ rest)" and "n < 65536"
  obtains (short) e' where "k < 2"
      and "readUInt16 (resume e) = (Throw InsufficientBytesError, e')"
    | (enough) e' where "2 \<le> k" and "ok True e'" and "stream e' = take (k - 2) rest"
      and "readUInt16 (resume e) = (Return n, e')"
proof -
  from assms(1,2) show ?thesis
  proof (cases rule: trunc_read)
    case (short e')
    then show ?thesis using that(1) [of e'] by (simp add: readUInt16_def await_def)
  next
    case (enough e')
    then show ?thesis using that(2) [of e'] assms(3) by (simp add: readUInt16_def await_def readUInt16LE_le16)
  qed
qed

lemma trunc_readInt32:
  assumes "ok True e" and "stream e = take k (le32s v @ rest)" and "int32 v"
  obtains (short) e' where "k < 4"
      and "readInt32 (resume e) = (Throw InsufficientBytesError, e')"
    | (enough) e' where "4 \<le> k" and "ok True e'" and "stream e' = take (k - 4) rest"
      and "readInt32 (resume e) = (Return v, e')"
proof -
  from assms(1,2) show ?thesis
  proof (cases rule: trunc_read)
    case (short e')
    then show ?thesis using that(1) [of e'] by (simp add: readInt32_def await_def)
  next
    case (enough e')
    then show ?thesis using that(2) [of e'] assms(3) by (simp add: readInt32_def await_def readInt32LE_le32s)
  qed
qed

lemma trunc_readUInt32:
  assumes "ok True e" and "stream e = take k (le32 n @ rest)" and "n < 4294967296"
  obtains (short) e' where "k < 4"
      and "readUInt32 (resume e) = (Throw InsufficientBytesError, e')"
    | (enough) e' where "4 \<le> k" and "ok True e'" and "stream e' = take (k - 4) rest"
      and "readUInt32 (resume e) = (Return n, e')"
proof -
  from assms(1,2) show ?thesis
  proof (cases rule: trunc_read)
    case (short e')
    then show ?thesis using that(1) [of e'] by (simp add: readUInt32_def await_def)
  next
    case (enough e')
    then show ?thesis using that(2) [of e'] assms(3) by (simp add: readUInt32_def await_def readUInt32LE_le32)
  qed
qed

lemma trunc_first:
  assumes ok: "ok True e" and str: "stream e = take k (le16 n @ rest)" and n: "n < 65536"
    and k: "k \<le> length (le16 n @ rest)"
  obtains (short) e' where "k < 2"
      and "readUInt16 e = (Throw InsufficientBytesError, e')" and "bytesAvailable (self e') = int k"
    | (enough) e' where "2 \<le> k" and "ok True e'" and "stream e' = take (k - 2) rest"
      and "readUInt16 e = (Return n, e')"
proof (cases "k < 2")
  case True
  with str k have "length (stream e) = k" by simp
  with True read_throw [OF ok, of 2] obtain e'
    where "read 2 e = (Throw InsufficientBytesError, e')" "bytesAvailable (self e') = int k"
    by auto
  then have "readUInt16 e = (Throw InsufficientBytesError, e')"
    by (simp add: readUInt16_def await_def)
  with True \<open>bytesAvailable (self e') = int k\<close> show ?thesis by (intro short [of e'])
next
  case False
  then have "stream e = le16 n @ take (k - 2) rest" using str by simp
  from first_readUInt16 [OF ok this n] obtain e' where "ok True e'"
    "stream e' = take (k - 2) rest" "readUInt16 e = (Return n, e')"
    by blast
  with False show ?thesis by (intro enough [of e']) simp_all
qed

lemma readPayload_truncated:
  assumes ok: "ok True e" and str: "stream e = take k pl" and k: "k < length pl"
  shows "\<exists>e'. readPayload (length pl) e = (Throw InsufficientBytesError, e')"
proof -
  from str have "stream e = take k (pl @ [])" by simp
  from ok this show ?thesis
  proof (cases rule: trunc_read)
    case (short e')
    then show ?thesis by (auto simp: readPayload_def await_def)
  next
    case (enough e')
    with k show ?thesis by simp
  qed
qed

lemma readFrame_truncated_v1:
  assumes ok: "ok True e" and wf: "wf_header w" and len: "length pl < 65536"
    and hs: "w_headerSize w = 0"
    and k: "0 < k" "k < length (header_bytes (length pl) w @ pl)"
    and str: "stream e = take k (header_bytes (length pl) w @ pl)"
  shows "\<exists>e'. readFrame tryRecover e = (Throw InsufficientBytesError, e')"
proof -
  from wf have rng: "int32 (w_pid w)" "int32 (w_tid w)" "int32 (w_sec w)" "int32 (w_nsec w)"
    "w_id w < 4294967296" "w_headerSize w < 65536"
    by (auto simp: wf_header_def)
  have total: "header_bytes (length pl) w @ pl = le16 (length pl) @ le16 (w_headerSize w) @ le32s (w_pid w) @ le32s (w_tid w) @ le32s (w_sec w) @ le32s (w_nsec w) @ pl"
    by (simp add: header_bytes_def hs)
  from k have kt: "k \<le> length (le16 (length pl) @ le16 (w_headerSize w) @ le32s (w_pid w) @ le32s (w_tid w) @ le32s (w_sec w) @ le32s (w_nsec w) @ pl)"
    by (simp add: total [symmetric])
  from k have kl: "k < 20 + length pl"
    by (simp add: total)
  from str have s0: "stream e = take k (le16 (length pl) @ le16 (w_headerSize w) @ le32s (w_pid w) @ le32s (w_tid w) @ le32s (w_sec w) @ le32s (w_nsec w) @ pl)"
    by (simp add: total)
  from ok s0 len kt show ?thesis
  proof (cases rule: trunc_first)
    case (short e')
    with k(1) show ?thesis by (simp add: readFrame_def)
  next
    case e1: (enough e1)
    from e1(2,3) rng(6) show ?thesis
    proof (cases rule: trunc_readUInt16)
      case (short e')
      with e1(4) show ?thesis by (simp add: readFrame_def await_def hs)
    next
      case e2: (enough e2)
      from e2(2,3) rng(1) show ?thesis
      proof (cases rule: trunc_readInt32)
        case (short e')
        with e1(4) e2(4) show ?thesis by (simp add: readFrame_def await_def hs)
      next
        case e3: (enough e3)
        from e3(2,3) rng(2) show ?thesis
        proof (cases rule: trunc_readInt32)
          case (short e')
          with e1(4) e2(4) e3(4) show ?thesis by (simp add: readFrame_def await_def hs)
        next
          case e4: (enough e4)
          from e4(2,3) rng(3) show ?thesis
          proof (cases rule: trunc_readInt32)
            case (short e')
            with e1(4) e2(4) e3(4) e4(4) show ?thesis by (simp add: readFrame_def await_def hs)
          next
            case e5: (enough e5)
            from e5(2,3) rng(4) show ?thesis
            proof (cases rule: trunc_readInt32)
              case (short e')
              with e1(4) e2(4) e3(4) e4(4) e5(4) show ?thesis by (simp add: readFrame_def await_def hs)
            next
              case e6: (enough e6)
              from e1(1,3) e2(1,3) e3(1,3) e4(1,3) e5(1,3) e6(1,3) kl have "stream e6 = take (k - 20) pl" "k - 20 < length pl"
                by simp_all
              from readPayload_truncated [OF e6(2) this] obtain e'
                where "readPayload (length pl) e6 = (Throw InsufficientBytesError, e')" by blast
              with e1(4) e2(4) e3(4) e4(4) e5(4) e6(4) show ?thesis by (simp add: readFrame_def await_def hs)
            qed
          qed
        qed
      qed
    qed
  qed
qed

lemma readFrame_truncated_v2:
  assumes ok: "ok True e" and wf: "wf_header w" and len: "length pl < 65536"
    and hs: "w_headerSize w = 24"
    and k: "0 < k" "k < length (header_bytes (length pl) w @ pl)"
    and str: "stream e = take k (header_bytes (length pl) w @ pl)"
  shows "\<exists>e'. readFrame tryRecover e = (Throw InsufficientBytesError, e')"
proof -
  from wf have rng: "int32 (w_pid w)" "int32 (w_tid w)" "int32 (w_sec w)" "int32 (w_nsec w)"
    "w_id w < 4294967296" "w_headerSize w < 65536"
    by (auto simp: wf_header_def)
  have total: "header_bytes (length pl) w @ pl = le16 (length pl) @ le16 (w_headerSize w) @ le32s (w_pid w) @ le32s (w_tid w) @ le32s (w_sec w) @ le32s (w_nsec w) @ le32 (w_id w) @ pl"
    by (simp add: header_bytes_def hs)
  from k have kt: "k \<le> length (le16 (length pl) @ le16 (w_headerSize w) @ le32s (w_pid w) @ le32s (w_tid w) @ le32s (w_sec w) @ le32s (w_nsec w) @ le32 (w_id w) @ pl)"
    by (simp add: total [symmetric])
  from k have kl: "k < 24 + length pl"
    by (simp add: total)
  from str have s0: "stream e = take k (le16 (length pl) @ le16 (w_headerSize w) @ le32s (w_pid w) @ le32s (w_tid w) @ le32s (w_sec w) @ le32s (w_nsec w) @ le32 (w_id w) @ pl)"
    by (simp add: total)
  from ok s0 len kt show ?thesis
  proof (cases rule: trunc_first)
    case (short e')
    with k(1) show ?thesis by (simp add: readFrame_def)
  next
    case e1: (enough e1)
    from e1(2,3) rng(6) show ?thesis
    proof (cases rule: trunc_readUInt16)
      case (short e')
      with e1(4) show ?thesis by (simp add: readFrame_def await_def hs)
    next
      case e2: (enough e2)
      from e2(2,3) rng(1) show ?thesis
      proof (cases rule: trunc_readInt32)
        case (short e')
        with e1(4) e2(4) show ?thesis by (simp add: readFrame_def await_def hs)
      next
        case e3: (enough e3)
        from e3(2,3) rng(2) show ?thesis
        proof (cases rule: trunc_readInt32)
          case (short e')
          with e1(4) e2(4) e3(4) show ?thesis by (simp add: readFrame_def await_def hs)
        next
          case e4: (enough e4)
          from e4(2,3) rng(3) show ?thesis
          proof (cases rule: trunc_readInt32)
            case (short e')
            with e1(4) e2(4) e3(4) e4(4) show ?thesis by (simp add: readFrame_def await_def hs)
          next
            case e5: (enough e5)
            from e5(2,3) rng(4) show ?thesis
            proof (cases rule: trunc_readInt32)
              case (short e')
              with e1(4) e2(4) e3(4) e4(4) e5(4) show ?thesis by (simp add: readFrame_def await_def hs)
            next
              case e6: (enough e6)
              from e6(2,3) rng(5) show ?thesis
              proof (cases rule: trunc_readUInt32)
                case (short e')
                with e1(4) e2(4) e3(4) e4(4) e5(4) e6(4) show ?thesis by (simp add: readFrame_def await_def hs)
              next
                case e7: (enough e7)
                from e1(1,3) e2(1,3) e3(1,3) e4(1,3) e5(1,3) e6(1,3) e7(1,3) kl have "stream e7 = take (k - 24) pl" "k - 24 < length pl"
                  by simp_all
                from readPayload_truncated [OF e7(2) this] obtain e'
                  where "readPayload (length pl) e7 = (Throw InsufficientBytesError, e')" by blast
                with e1(4) e2(4) e3(4) e4(4) e5(4) e6(4) e7(4) show ?thesis by (simp add: readFrame_def await_def hs)
              qed
            qed
          qed
        qed
      qed
    qed
  qed
qed


lemma readFrame_truncated:
  assumes ok: "ok True e" and wf: "wf_wire w" and k: "0 < k" "k < length (encode w)"
    and str: "stream e = take k (encode w)"
  shows "\<exists>e'. readFrame tryRecover e = (Throw InsufficientBytesError, e')"
proof -
  from wf have h: "wf_header w" and len: "length (w_payload w) < 65536"
    by (simp_all add: wf_wire_def)
  from h have "w_headerSize w = 0 \<or> w_headerSize w = 24" by (simp add: wf_header_def)
  then show ?thesis
  proof
    assume "w_headerSize w = 0"
    from readFrame_truncated_v1 [OF ok h len this] k str show ?thesis
      by (simp add: encode_def)
  next
    assume "w_headerSize w = 24"
    from readFrame_truncated_v2 [OF ok h len this] k str show ?thesis
      by (simp add: encode_def)
  qed
qed

lemma decodeLoop_stops:
  assumes ok: "ok c e" and ne: "stream e \<noteq> []"
    and it: "iteration tryRecover (resume e) = (r, e')" and r: "\<And>entry. r \<noteq> Return entry"
  shows "decodeLoop tryRecover e
           = ([], (case r of Throw err \<Rightarrow> Throw err | Hang \<Rightarrow> Hang | _ \<Rightarrow> Return ()), e')"
proof -
  from resume_ok [OF ok] ne have "ok c (resume e)" "stream (resume e) \<noteq> []" by simp_all
  from loop_condition [OF this]
  have "\<not> ended (self (resume e)) \<or> bytesAvailable (self (resume e)) \<noteq> 0" .
  then show ?thesis
    using it r by (subst decodeLoop.simps) (cases r; auto simp: Let_def)
qed

text \<open>
  Claim C7. A stream of well-formed frames that ends inside the next frame, after \<open>k\<close> of
  its bytes (\<open>k\<close> is less than the length of the frame): the iterator yields the records
  of the complete frames and nothing for the partial one. It ends cleanly only when
  \<open>k = 0\<close>, that is when the read of the payload length fails with no byte buffered;
  otherwise the read that runs short raises \<open>InsufficientBytesError\<close>, which is thrown to
  the consumer, or swallowed when \<open>noError\<close> is set.
\<close>

theorem truncated_stream:
  assumes "ok True e" and "list_all wf_wire ws" and "wf_wire w" and "k < length (encode w)"
    and "stream e = concat (map encode ws) @ take k (encode w)"
  shows "\<exists>e'. asIterator noError tryRecover e
           = (map entry_of ws,
              (if k = 0 then Finished
               else if noError then Swallowed InsufficientBytesError
               else Thrown InsufficientBytesError),
              e')"
proof -
  from decodeLoop_frames [OF assms(1,5,2), of tryRecover]
  obtain e1 where e1: "ok True e1" "stream e1 = take k (encode w)"
    and d1: "decodeLoop tryRecover e
               = (case decodeLoop tryRecover e1 of (es, r, e2) \<Rightarrow> (map entry_of ws @ es, r, e2))"
    by blast
  show ?thesis
  proof (cases "k = 0")
    case True
    with e1 have "stream e1 = []" by simp
    from decodeLoop_at_end [OF e1(1) this, of tryRecover] obtain e2
      where "decodeLoop tryRecover e1 = ([], Return (), e2)" by blast
    with d1 True show ?thesis by (simp add: asIterator_def)
  next
    case False
    with assms(4) e1 have ne: "stream e1 \<noteq> []" by (simp add: encode_nonempty)
    from resume_ok [OF e1(1)] e1(2)
    have "ok True (resume e1)" "stream (resume e1) = take k (encode w)" by simp_all
    from readFrame_truncated [OF this(1) assms(3) _ assms(4) this(2), of tryRecover] False
    obtain e2 where "readFrame tryRecover (resume e1) = (Throw InsufficientBytesError, e2)"
      by auto
    then have "iteration tryRecover (resume e1) = (Throw InsufficientBytesError, e2)"
      by (simp add: iteration_def await_def)
    from decodeLoop_stops [OF e1(1) ne this]
    have "decodeLoop tryRecover e1 = ([], Throw InsufficientBytesError, e2)" by simp
    with d1 False show ?thesis by (simp add: asIterator_def)
  qed
qed

theorem truncated_stream_witness:
  "(\<exists>e'. asIterator False False
            (attached [[6, 0, 0, 0, 1, 0, 0, 0, 2, 0, 0, 0, 3, 0, 0, 0, 4, 0, 0, 0,
                        4, 116, 101, 115, 116, 0], [6, 0, 24, 0, 44, 1, 0, 0, 255]] [])
          = ([\<lparr>pid = 1, tid = 2, sec = 3, nsec = 4, entry_id = None, priority = Some 4,
                tag = [116, 101, 115, 116], msg = []\<rparr>],
             Thrown InsufficientBytesError, e'))
   \<and> (\<exists>e'. asIterator True False
            (attached [[6, 0, 0, 0, 1, 0, 0, 0, 2, 0, 0, 0, 3, 0, 0, 0, 4, 0, 0, 0,
                        4, 116, 101, 115, 116, 0], [6, 0, 24, 0, 44, 1, 0, 0, 255]] [])
          = ([\<lparr>pid = 1, tid = 2, sec = 3, nsec = 4, entry_id = None, priority = Some 4,
                tag = [116, 101, 115, 116], msg = []\<rparr>],
             Swallowed InsufficientBytesError, e'))"
  using
    truncated_stream [of "attached [[6, 0, 0, 0, 1, 0, 0, 0, 2, 0, 0, 0, 3, 0, 0, 0, 4, 0, 0, 0,
                        4, 116, 101, 115, 116, 0], [6, 0, 24, 0, 44, 1, 0, 0, 255]] []"
      "[wire1]" wire2 9 False False]
    truncated_stream [of "attached [[6, 0, 0, 0, 1, 0, 0, 0, 2, 0, 0, 0, 3, 0, 0, 0, 4, 0, 0, 0,
                        4, 116, 101, 115, 116, 0], [6, 0, 24, 0, 44, 1, 0, 0, 255]] []"
      "[wire1]" wire2 9 True False]
  by (simp add: attached_ok attached_stream wire1_def wire2_def wf_wire_def wf_header_def
      int32_def encode_def header_bytes_def le16_def le32_def le32s_def entry_of_def)

lemma readFrame_invalid:
  assumes ok: "ok c e" and str: "stream e = le16 len @ le16 hs @ rest"
    and len: "len < 65536" and hs: "hs < 65536" "hs \<noteq> 0" "hs \<noteq> 24"
  shows "\<exists>e2. readFrame tryRecover e
           = (if tryRecover then (Break, e2\<lparr>self := clearBuffer (self e2)\<rparr>)
              else (Throw (InvalidHeaderSize hs), e2))"
proof -
  from first_readUInt16 [OF ok str len] obtain e1 where e1: "ok c e1" "stream e1 = le16 hs @ rest"
    and r1: "readUInt16 e = (Return len, e1)" by blast
  from step_readUInt16 [OF e1 hs(1)] obtain e2
    where r2: "readUInt16 (resume e1) = (Return hs, e2)" by blast
  from r1 r2 hs show ?thesis by (auto simp: readFrame_def await_def)
qed

text \<open>
  Claim C5. After any number of well-formed frames comes a frame whose header size \<open>hs\<close>
  is neither 0 nor 24. Without recovery the loop throws \<open>Invalid header size hs\<close>: the
  consumer gets it, or with \<open>noError\<close> it is swallowed and the sequence just ends. With
  \<open>tryRecover\<close> the buffer is cleared and the sequence ends cleanly. In each case the
  records of the frames before are all that is yielded.
\<close>

theorem invalid_header_size:
  assumes "ok c e" and "list_all wf_wire ws"
    and "stream e = concat (map encode ws) @ le16 len @ le16 hs @ rest"
    and "len < 65536" and "hs < 65536" and "hs \<noteq> 0" and "hs \<noteq> 24"
  shows "(\<exists>e'. asIterator False False e
            = (map entry_of ws, Thrown (InvalidHeaderSize hs), e'))
       \<and> (\<exists>e'. asIterator True False e
            = (map entry_of ws, Swallowed (InvalidHeaderSize hs), e'))
       \<and> (\<exists>e'. asIterator noError True e = (map entry_of ws, Finished, e')
            \<and> buffer (self e') = [] \<and> cursor (self e') = 0 \<and> bytesToRead (self e') = 0)"
proof -
  have d: "\<exists>e1 e2. decodeLoop tryRecover e
        = (map entry_of ws,
           (if tryRecover then Return () else Throw (InvalidHeaderSize hs)), e2)"
    for tryRecover
  proof -
    from decodeLoop_frames [OF assms(1,3,2), of tryRecover]
    obtain e1 where e1: "ok c e1" "stream e1 = le16 len @ le16 hs @ rest"
      and d1: "decodeLoop tryRecover e
               = (case decodeLoop tryRecover e1 of (es, r, e2) \<Rightarrow> (map entry_of ws @ es, r, e2))"
      by blast
    from e1 have ne: "stream e1 \<noteq> []" by (simp add: le16_def)
    from resume_ok [OF e1(1)] e1(2)
    have "ok c (resume e1)" "stream (resume e1) = le16 len @ le16 hs @ rest" by simp_all
    from readFrame_invalid [OF this assms(4-7), of tryRecover] obtain e2
      where rf: "readFrame tryRecover (resume e1)
           = (if tryRecover then (Break, e2\<lparr>self := clearBuffer (self e2)\<rparr>)
              else (Throw (InvalidHeaderSize hs), e2))" by blast
    show ?thesis
    proof (cases tryRecover)
      case True
      with rf have "iteration tryRecover (resume e1) = (Break, e2\<lparr>self := clearBuffer (self e2)\<rparr>)"
        by (simp add: iteration_def await_def)
      from decodeLoop_stops [OF e1(1) ne this] d1 True show ?thesis by simp
    next
      case False
      with rf have "iteration tryRecover (resume e1) = (Throw (InvalidHeaderSize hs), e2)"
        by (simp add: iteration_def await_def)
      from decodeLoop_stops [OF e1(1) ne this] d1 False show ?thesis by simp
    qed
  qed
  from d [of False] d [of True] show ?thesis
    by (auto simp: asIterator_def clearBuffer_def)
qed

theorem invalid_header_size_witness:
  "(\<exists>e'. asIterator False False
            (attached [[6, 0, 0, 0, 1, 0, 0, 0, 2, 0, 0, 0, 3, 0, 0, 0, 4, 0, 0, 0,
                        4, 116, 101, 115, 116, 0, 6, 0], [5, 0, 1, 2, 3]] [])
          = ([\<lparr>pid = 1, tid = 2, sec = 3, nsec = 4, entry_id = None, priority = Some 4,
                tag = [116, 101, 115, 116], msg = []\<rparr>],
             Thrown (InvalidHeaderSize 5), e'))
   \<and> (\<exists>e'. asIterator True False
            (attached [[6, 0, 0, 0, 1, 0, 0, 0, 2, 0, 0, 0, 3, 0, 0, 0, 4, 0, 0, 0,
                        4, 116, 101, 115, 116, 0, 6, 0], [5, 0, 1, 2, 3]] [])
          = ([\<lparr>pid = 1, tid = 2, sec = 3, nsec = 4, entry_id = None, priority = Some 4,
                tag = [116, 101, 115, 116], msg = []\<rparr>],
             Swallowed (InvalidHeaderSize 5), e'))
   \<and> (\<exists>e'. asIterator False True
            (attached [[6, 0, 0, 0, 1, 0, 0, 0, 2, 0, 0, 0, 3, 0, 0, 0, 4, 0, 0, 0,
                        4, 116, 101, 115, 116, 0, 6, 0], [5, 0, 1, 2, 3]] [])
          = ([\<lparr>pid = 1, tid = 2, sec = 3, nsec = 4, entry_id = None, priority = Some 4,
                tag = [116, 101, 115, 116], msg = []\<rparr>],
             Finished, e')
        \<and> buffer (self e') = [] \<and> cursor (self e') = 0 \<and> bytesToRead (self e') = 0)"
  using
    invalid_header_size [of True
      "attached [[6, 0, 0, 0, 1, 0, 0, 0, 2, 0, 0, 0, 3, 0, 0, 0, 4, 0, 0, 0,
                  4, 116, 101, 115, 116, 0, 6, 0], [5, 0, 1, 2, 3]] []"
      "[wire1]" 6 5 "[1, 2, 3]" False]
  by (simp add: attached_ok attached_stream wire1_def wf_wire_def wf_header_def
      int32_def encode_def header_bytes_def le16_def le32_def le32s_def entry_of_def)

text \<open>
  Claim C10. A frame whose payload length is 0 (with a valid header): \<open>payload[0]\<close> is read
  from the empty payload, which gives \<open>undefined\<close>; the padding loop is not entered and
  no further byte is read (the bytes after the header are all still to come); the
  iteration yields an entry whose priority is \<open>undefined\<close> and whose tag and message are
  empty, and \<open>asIterator\<close> yields it first.
\<close>

theorem empty_payload_frame:
  assumes "ok c e" and "wf_header w" and "stream e = header_bytes 0 w @ rest"
  shows "byteAt [] 0 = None
       \<and> (\<exists>e1. ok c e1 \<and> stream e1 = rest
            \<and> iteration tryRecover e
                = (Return \<lparr>pid = w_pid w, tid = w_tid w, sec = w_sec w, nsec = w_nsec w,
                           entry_id = (if w_headerSize w = 24 \<and> w_id w \<noteq> 0
                                       then Some (w_id w) else None),
                           priority = None, tag = [], msg = []\<rparr>, e1))
       \<and> (\<exists>es out e2. asIterator noError tryRecover e
            = (\<lparr>pid = w_pid w, tid = w_tid w, sec = w_sec w, nsec = w_nsec w,
                 entry_id = (if w_headerSize w = 24 \<and> w_id w \<noteq> 0
                             then Some (w_id w) else None),
                 priority = None, tag = [], msg = []\<rparr> # es, out, e2))"
proof -
  let ?entry = "\<lparr>pid = w_pid w, tid = w_tid w, sec = w_sec w, nsec = w_nsec w,
                 entry_id = (if w_headerSize w = 24 \<and> w_id w \<noteq> 0
                             then Some (w_id w) else None),
                 priority = None, tag = [], msg = []\<rparr>"
  have it: "\<exists>e1. ok c e1 \<and> stream e1 = rest \<and> iteration tryRecover e0 = (Return ?entry, e1)"
    if ok0: "ok c e0" and str0: "stream e0 = header_bytes 0 w @ rest" for e0
  proof -
    from readFrame_header [OF ok0 str0 assms(2), of tryRecover] obtain e7 where e7: "ok c e7"
      "stream e7 = rest"
      and rf: "readFrame tryRecover e0
                = await (readPayload 0 e7) (\<lambda>x e10. (Return (frame_of w x), e10))"
      by auto
    from readPayload_empty [OF e7(1)] e7(2) obtain e10 where e10: "ok c e10" "stream e10 = rest"
      and rp: "readPayload 0 e7 = (Return (None, 1, []), e10)" by auto
    have "makeEntry (frame_of w (None, 1, [])) = ?entry"
      by (simp add: makeEntry_def frame_of_def indexOf_byte_def buf_slice_def)
    with rf rp
    have "iteration tryRecover e0 = (Return ?entry, e10\<lparr>self := rollBuffer (self e10)\<rparr>)"
      by (simp add: iteration_def await_def)
    with roll_ok [OF e10(1)] e10(2) show ?thesis by auto
  qed
  from resume_ok [OF assms(1)] assms(3)
  have ok0: "ok c (resume e)" and str0: "stream (resume e) = header_bytes 0 w @ rest" by simp_all
  from str0 have "stream (resume e) \<noteq> []" by (simp add: header_bytes_def le16_def)
  from loop_condition [OF ok0 this]
  have cond: "\<not> ended (self (resume e)) \<or> bytesAvailable (self (resume e)) \<noteq> 0" .
  from it [OF ok0 str0] obtain e1 where "iteration tryRecover (resume e) = (Return ?entry, e1)"
    by blast
  with cond have "\<exists>es r e2. decodeLoop tryRecover e = (?entry # es, r, e2)"
    by (subst decodeLoop.simps) (auto simp: Let_def split: prod.splits)
  then have "\<exists>es out e2. asIterator noError tryRecover e = (?entry # es, out, e2)"
    by (auto simp: asIterator_def split: completion.splits)
  with it [OF assms(1,3)] show ?thesis by (simp add: byteAt_def)
qed

theorem empty_payload_frame_witness:
  "\<exists>es out e2. asIterator False False
      (attached [[0, 0, 24, 0, 1, 0, 0, 0, 2, 0, 0, 0], [3, 0, 0, 0, 4, 0, 0, 0, 7, 0, 0, 0, 9, 9]] [])
     = (\<lparr>pid = 1, tid = 2, sec = 3, nsec = 4, entry_id = Some 7,
          priority = None, tag = [], msg = []\<rparr> # es, out, e2)"
  using empty_payload_frame [of True
      "attached [[0, 0, 24, 0, 1, 0, 0, 0, 2, 0, 0, 0], [3, 0, 0, 0, 4, 0, 0, 0, 7, 0, 0, 0, 9, 9]] []"
      "\<lparr>w_headerSize = 24, w_pid = 1, w_tid = 2, w_sec = 3, w_nsec = 4, w_id = 7, w_payload = []\<rparr>"
      "[9, 9]" False False]
  by (simp add: attached_ok attached_stream wf_header_def int32_def header_bytes_def
      le16_def le32_def le32s_def)

section \<open>Runs of the decoder on given streams\<close>

text \<open>The equations that evaluate the decoder on a given input.\<close>

lemmas decoder_eval =
  asIterator_def attached_def decodeLoop.simps iteration_def readFrame_def readPayload_def
  scanPadding.simps await_def read_def raw_read_def resume_def readUInt16_def readInt32_def
  readUInt32_def readUInt16LE_def readInt32LE_def readUInt32LE_def bytesAvailable_def
  onData_def onEnd_def buf_slice_def byteAt_def makeEntry_def indexOf_byte_def rollBuffer_def
  clearBuffer_def Let_def

text \<open>
  Claim C2, at a frame with header size 24 whose id field is 0 (the uid of root): the four
  bytes of the id are consumed (tag and message come out right), but \<open>if(id)\<close> is false
  for 0 and the entry has no id.
\<close>

theorem header24_zero_id_dropped:
  "asIterator False False
     (attached [[6, 0, 24, 0, 1, 0, 0, 0, 2, 0, 0, 0, 3, 0, 0, 0, 4, 0, 0, 0, 0, 0, 0, 0,
                 4, 116, 101, 115, 116, 0]] [])
   = ([\<lparr>pid = 1, tid = 2, sec = 3, nsec = 4, entry_id = None, priority = Some 4,
         tag = [116, 101, 115, 116], msg = []\<rparr>],
      Finished,
      \<lparr>self = \<lparr>buffer = [], cursor = 0, bytesToRead = 0, ended = True\<rparr>,
       events = [], early = []\<rparr>)"
  by (simp add: decoder_eval)

text \<open>
  Claim C3, at a frame with payload length 3 and two padding zeros before the payload
  \<open>[4, 65, 0]\<close>, followed by a second frame. Without the padding both frames are
  decoded. With it, the scan finds the priority at index 2, and since \<open>priorityIndex\<close>
  has reached \<open>len\<close> it pulls 3 more bytes, then 2 more for the padding: 8 bytes instead
  of 5. The message of the first entry holds bytes of the second frame, and the second
  frame is read from its fourth byte on and runs short.
\<close>

theorem padding_overreads:
  "asIterator False False
     (attached [[3, 0, 0, 0, 1, 0, 0, 0, 2, 0, 0, 0, 3, 0, 0, 0, 4, 0, 0, 0, 4, 65, 0,
                 6, 0, 0, 0, 1, 0, 0, 0, 2, 0, 0, 0, 3, 0, 0, 0, 4, 0, 0, 0,
                 4, 116, 101, 115, 116, 0]] [])
   = ([\<lparr>pid = 1, tid = 2, sec = 3, nsec = 4, entry_id = None, priority = Some 4,
         tag = [65], msg = []\<rparr>,
       \<lparr>pid = 1, tid = 2, sec = 3, nsec = 4, entry_id = None, priority = Some 4,
         tag = [116, 101, 115, 116], msg = []\<rparr>],
      Finished,
      \<lparr>self = \<lparr>buffer = [], cursor = 0, bytesToRead = 0, ended = True\<rparr>,
       events = [], early = []\<rparr>)
   \<and> asIterator False False
     (attached [[3, 0, 0, 0, 1, 0, 0, 0, 2, 0, 0, 0, 3, 0, 0, 0, 4, 0, 0, 0, 0, 0, 4, 65, 0,
                 6, 0, 0, 0, 1, 0, 0, 0, 2, 0, 0, 0, 3, 0, 0, 0, 4, 0, 0, 0,
                 4, 116, 101, 115, 116, 0]] [])
   = ([\<lparr>pid = 1, tid = 2, sec = 3, nsec = 4, entry_id = None, priority = Some 4,
         tag = [65], msg = [6, 0]\<rparr>],
      Thrown InsufficientBytesError,
      \<lparr>self = \<lparr>buffer = [0, 1, 0, 0, 0, 2, 0, 0, 0, 3, 0, 0, 0, 4, 0, 0, 0, 4, 116, 101, 115,
                        116, 0],
               cursor = 20, bytesToRead = 256, ended = True\<rparr>,
       events = [], early = []\<rparr>)"
  by (simp add: decoder_eval)

text \<open>
  Claim C4 fails when the error is thrown to the consumer: the stream \<open>[1, 0, 0]\<close> ends
  inside the header, \<open>InsufficientBytesError\<close> leaves \<open>asIterator\<close> through \<open>throw err\<close>,
  and the buffer, the cursor and the pending size are as the failed read left them.
\<close>

theorem thrown_error_skips_clearBuffer:
  "asIterator False False (attached [[1, 0, 0]] [])
   = ([], Thrown InsufficientBytesError,
      \<lparr>self = \<lparr>buffer = [1, 0, 0], cursor = 2, bytesToRead = 2, ended = True\<rparr>,
       events = [], early = []\<rparr>)"
  by (simp add: decoder_eval)

text \<open>
  Claim C4 as amended. When the sequence ends without an exception reaching the consumer
  (clean end of the stream, recovery on an invalid header, or an error swallowed under
  \<open>noError\<close>), the buffer is empty and the cursor and the pending size are 0. With
  \<open>noError\<close> no exception reaches the consumer.
\<close>

theorem buffer_reset_unless_thrown:
  "(fst (snd (asIterator noError tryRecover e)) = Finished
      \<or> fst (snd (asIterator noError tryRecover e)) = Swallowed err
    \<longrightarrow> buffer (self (snd (snd (asIterator noError tryRecover e)))) = []
        \<and> cursor (self (snd (snd (asIterator noError tryRecover e)))) = 0
        \<and> bytesToRead (self (snd (snd (asIterator noError tryRecover e)))) = 0)
   \<and> (noError \<longrightarrow> fst (snd (asIterator noError tryRecover e)) \<noteq> Thrown err)"
  by (cases "decodeLoop tryRecover e" rule: prod_cases3)
     (auto simp: asIterator_def clearBuffer_def split: completion.splits)

theorem buffer_reset_unless_thrown_witness:
  "buffer (self (snd (snd (asIterator True False (attached [[1, 0, 0]] []))))) = []
   \<and> cursor (self (snd (snd (asIterator True False (attached [[1, 0, 0]] []))))) = 0
   \<and> bytesToRead (self (snd (snd (asIterator True False (attached [[1, 0, 0]] []))))) = 0
   \<and> fst (snd (asIterator True False (attached [[1, 0, 0]] []))) = Swallowed InsufficientBytesError"
proof -
  have s: "fst (snd (asIterator True False (attached [[1, 0, 0]] []))) = Swallowed InsufficientBytesError"
    by (simp add: decoder_eval)
  from buffer_reset_unless_thrown [of True False "attached [[1, 0, 0]] []" InsufficientBytesError] s
  show ?thesis by simp
qed

section \<open>The cursor and the buffer\<close>

























section \<open>The line feed transform (LineFeedTransform.ts)\<close>

text \<open>
  \<open>os.platform()\<close> is read once, when the module is loaded; it is a parameter here.
  \<open>originalLineFeed\<close> and \<open>replacedLineFeed\<close> have the values of the source.
\<close>

datatype platform = Win32 | Other

definition originalLineFeed :: bytes where
  "originalLineFeed = [0x0D]"

definition replacedLineFeed :: "platform \<Rightarrow> bytes" where
  "replacedLineFeed pf = (if pf = Win32 then [0x0D, 0x0D, 0x0A] else [0x0D, 0x0A])"

text \<open>\<open>chunk.indexOf(value, byteOffset)\<close> for a buffer \<open>value\<close>; \<open>None\<close> is \<open>-1\<close>.\<close>

definition indexOf_bytes :: "bytes \<Rightarrow> bytes \<Rightarrow> nat \<Rightarrow> nat option" where
  "indexOf_bytes b v start = find (\<lambda>i. take (length v) (drop i b) = v) [start..<length b]"

text \<open>
  \<open>indexOfSubpattern\<close>: the search starts at \<open>target.length - pattern.length + 1\<close>, or
  at 0 when that is negative; \<open>range(index, target.length)\<close> yields \<open>index\<close> up to
  \<open>target.length - 1\<close>.
\<close>

definition indexOfSubpattern :: "bytes \<Rightarrow> bytes \<Rightarrow> nat option" where
  "indexOfSubpattern target pattern =
     find (\<lambda>index. list_all (\<lambda>j. byteAt target j = byteAt pattern (j - index))
                         [index..<length target])
       [length target + 1 - length pattern..<length target]"

lemma indexOf_bytes_Some:
  assumes "indexOf_bytes b v start = Some i"
  shows "start \<le> i" and "i < length b" and "take (length v) (drop i b) = v"
    and "\<And>j. start \<le> j \<Longrightarrow> j < i \<Longrightarrow> take (length v) (drop j b) \<noteq> v"
proof -
  from assms obtain k where k: "k < length [start..<length b]"
    "take (length v) (drop ([start..<length b] ! k) b) = v" "i = [start..<length b] ! k"
    "\<forall>j<k. take (length v) (drop ([start..<length b] ! j) b) \<noteq> v"
    unfolding indexOf_bytes_def find_Some_iff by blast
  then have i: "i = start + k" "start + k < length b" by simp_all
  then show "start \<le> i" "i < length b" by simp_all
  from k show "take (length v) (drop i b) = v" by simp
  fix j assume j: "start \<le> j" "j < i"
  with i have "j - start < k" by simp
  with k(4) have "take (length v) (drop ([start..<length b] ! (j - start)) b) \<noteq> v" by blast
  moreover from j i have "[start..<length b] ! (j - start) = j" by simp
  ultimately show "take (length v) (drop j b) \<noteq> v" by simp
qed

lemma indexOf_bytes_None:
  assumes "indexOf_bytes b v start = None" and "start \<le> j" and "j < length b"
  shows "take (length v) (drop j b) \<noteq> v"
  using assms by (auto simp: indexOf_bytes_def find_None_iff)

text \<open>
  The \<open>while\<close> loop of \<open>_transform\<close> (lines 65 to 70): the chunks it pushes and the
  final value of \<open>lastSegmentStart\<close>.
\<close>

function scanPatterns :: "platform \<Rightarrow> bytes \<Rightarrow> nat \<Rightarrow> bytes list \<times> nat" where
  "scanPatterns pf chunk lastSegmentStart =
     (case indexOf_bytes chunk (replacedLineFeed pf) lastSegmentStart of
        None \<Rightarrow> ([], lastSegmentStart)
      | Some replacedLineFeedIndex \<Rightarrow>
          (case scanPatterns pf chunk (replacedLineFeedIndex + length (replacedLineFeed pf)) of
             (pushed, s) \<Rightarrow>
               (buf_slice chunk lastSegmentStart replacedLineFeedIndex # originalLineFeed # pushed,
                s)))"
  by pat_completeness auto
termination
proof (relation "measure (\<lambda>(pf, chunk, s). length chunk - s)", goal_cases)
  case 1
  show ?case by simp
next
  case (2 pf chunk s i)
  from indexOf_bytes_Some(1,2) [OF 2] show ?case
    by (auto simp: replacedLineFeed_def)
qed

declare scanPatterns.simps [simp del]

text \<open>The state of the transform, \<open>_transform\<close> and \<open>_flush\<close>, each with the chunks it pushes.\<close>

record lineFeedTransform =
  lastSuspiciousBytes :: "bytes option"

definition transform_chunk :: "platform \<Rightarrow> lineFeedTransform \<Rightarrow> bytes \<Rightarrow> bytes list \<times> lineFeedTransform" where
  "transform_chunk pf t chunk0 =
     (let chunk = (case lastSuspiciousBytes t of Some l \<Rightarrow> l @ chunk0 | None \<Rightarrow> chunk0);
          t1 = t\<lparr>lastSuspiciousBytes := None\<rparr>
      in case scanPatterns pf chunk 0 of
           (pushed, lastSegmentStart) \<Rightarrow>
             if lastSegmentStart < length chunk then
               (case indexOfSubpattern chunk (replacedLineFeed pf) of
                  Some lastSuspiciousBytesIndex \<Rightarrow>
                    (pushed @ [buf_slice chunk lastSegmentStart lastSuspiciousBytesIndex],
                     t1\<lparr>lastSuspiciousBytes := Some (drop lastSuspiciousBytesIndex chunk)\<rparr>)
                | None \<Rightarrow> (pushed @ [drop lastSegmentStart chunk], t1))
             else (pushed, t1))"

definition flush :: "lineFeedTransform \<Rightarrow> bytes list \<times> lineFeedTransform" where
  "flush t =
     (case lastSuspiciousBytes t of
        Some l \<Rightarrow> ([l], t\<lparr>lastSuspiciousBytes := None\<rparr>)
      | None \<Rightarrow> ([], t))"

text \<open>The pushes of a whole stream: one \<open>_transform\<close> per chunk, then \<open>_flush\<close>.\<close>

fun transform_all :: "platform \<Rightarrow> lineFeedTransform \<Rightarrow> bytes list \<Rightarrow> bytes list" where
  "transform_all pf t [] = fst (flush t)"
| "transform_all pf t (c # cs) =
     (case transform_chunk pf t c of (pushed, t') \<Rightarrow> pushed @ transform_all pf t' cs)"

definition corrector_output :: "platform \<Rightarrow> bytes list \<Rightarrow> bytes" where
  "corrector_output pf chunks =
     concat (transform_all pf \<lparr>lastSuspiciousBytes = None\<rparr> chunks)"

text \<open>
  What the spec asks for: the input with every occurrence of the pattern, taken from the
  left and without overlap, replaced by \<open>rep\<close>, and every other byte kept.
\<close>

function replace_each :: "bytes \<Rightarrow> bytes \<Rightarrow> bytes \<Rightarrow> bytes" where
  "replace_each pat rep [] = []"
| "replace_each pat rep (x # xs) =
     (if pat \<noteq> [] \<and> prefix pat (x # xs)
      then rep @ replace_each pat rep (drop (length pat) (x # xs))
      else x # replace_each pat rep xs)"
  by pat_completeness auto
termination
  by (relation "measure (\<lambda>(pat, rep, xs). length xs)") (auto simp: neq_Nil_conv)

lemma pattern_nonempty: "replacedLineFeed pf \<noteq> []"
  by (simp add: replacedLineFeed_def)

lemma pattern_last: "last (replacedLineFeed pf) = 0x0A"
  by (simp add: replacedLineFeed_def)

lemma pattern_proper_prefix:
  assumes "prefix ys (replacedLineFeed pf)" and "length ys < length (replacedLineFeed pf)"
  shows "0x0A \<notin> set ys"
proof -
  let ?P = "replacedLineFeed pf"
  have "?P = butlast ?P @ [last ?P]" by (simp add: pattern_nonempty)
  with assms(1) have "ys = ?P \<or> prefix ys (butlast ?P)" by (metis prefix_snoc)
  with assms(2) have "prefix ys (butlast ?P)" by auto
  then have "set ys \<subseteq> set (butlast ?P)" by (rule set_mono_prefix)
  moreover have "set (butlast ?P) = {0x0D}" by (simp add: replacedLineFeed_def)
  ultimately have "set ys \<subseteq> {0x0D :: byte}" by simp
  moreover have "(0x0A :: byte) \<noteq> 0x0D" by simp
  ultimately show ?thesis by blast
qed

lemma replace_each_skip:
  assumes "\<And>j. j < k \<Longrightarrow> \<not> prefix pat (drop j ys)" and "k \<le> length ys"
  shows "replace_each pat rep ys = take k ys @ replace_each pat rep (drop k ys)"
  using assms
proof (induction k arbitrary: ys)
  case 0
  then show ?case by simp
next
  case (Suc k)
  then obtain y ys' where ys: "ys = y # ys'" by (cases ys) auto
  from Suc.prems(1) [of 0] ys have "\<not> prefix pat (y # ys')" by simp
  then have "replace_each pat rep ys = y # replace_each pat rep ys'"
    by (simp add: ys)
  moreover have "replace_each pat rep ys' = take k ys' @ replace_each pat rep (drop k ys')"
  proof (rule Suc.IH)
    fix j assume "j < k"
    with Suc.prems(1) [of "Suc j"] ys show "\<not> prefix pat (drop j ys')" by simp
  next
    from Suc.prems(2) ys show "k \<le> length ys'" by simp
  qed
  ultimately show ?case by (simp add: ys)
qed

lemma replace_each_match:
  assumes "pat \<noteq> []" and "prefix pat ys"
  shows "replace_each pat rep ys = rep @ replace_each pat rep (drop (length pat) ys)"
proof -
  from assms obtain y ys' where "ys = y # ys'" by (cases ys) auto
  with assms show ?thesis by simp
qed

lemma replace_each_short:
  assumes "length ys < length pat"
  shows "replace_each pat rep ys = ys"
proof -
  have "replace_each pat rep ys = take (length ys) ys @ replace_each pat rep (drop (length ys) ys)"
  proof (rule replace_each_skip)
    fix j assume "j < length ys"
    show "\<not> prefix pat (drop j ys)"
    proof
      assume "prefix pat (drop j ys)"
      then have "length pat \<le> length (drop j ys)" by (rule prefix_length_le)
      with assms show False by simp
    qed
  qed simp
  then show ?thesis by simp
qed

lemma prefix_inside:
  assumes "j + length pat \<le> length chunk"
  shows "prefix pat (drop j chunk @ rest) \<longleftrightarrow> take (length pat) (drop j chunk) = pat"
proof
  assume "prefix pat (drop j chunk @ rest)"
  then have "take (length pat) (drop j chunk @ rest) = pat"
    by (metis append_eq_conv_conj prefix_def)
  with assms show "take (length pat) (drop j chunk) = pat" by simp
next
  assume "take (length pat) (drop j chunk) = pat"
  then have "prefix pat (drop j chunk)" by (metis take_is_prefix)
  then show "prefix pat (drop j chunk @ rest)" by (rule prefix_prefix)
qed

lemma prefix_across:
  assumes "prefix pat (a @ rest)" and "length a < length pat"
  shows "prefix a pat"
  using assms by (metis less_imp_le_nat prefix_length_prefix prefix_def append_prefixD prefixI)

lemma scanPatterns_correct:
  assumes "s \<le> length chunk" and "scanPatterns pf chunk s = (pushed, s')"
  shows "s \<le> s' \<and> s' \<le> length chunk
       \<and> (\<forall>rest. replace_each (replacedLineFeed pf) originalLineFeed (drop s chunk @ rest)
             = concat pushed @ replace_each (replacedLineFeed pf) originalLineFeed (drop s' chunk @ rest))
       \<and> (\<forall>j. s' \<le> j \<and> j < length chunk
             \<longrightarrow> take (length (replacedLineFeed pf)) (drop j chunk) \<noteq> replacedLineFeed pf)
       \<and> (s' = s \<or> 0 < s' \<and> chunk ! (s' - 1) = 0x0A)"
  using assms
proof (induction pf chunk s arbitrary: pushed s' rule: scanPatterns.induct)
  case (1 pf chunk s)
  let ?P = "replacedLineFeed pf"
  let ?R = "replace_each ?P originalLineFeed"
  note eq = scanPatterns.simps [of pf chunk s]
  show ?case
  proof (cases "indexOf_bytes chunk ?P s")
    case None
    with "1.prems" eq have "pushed = []" "s' = s" by simp_all
    with None "1.prems"(1) show ?thesis
      by (auto dest: indexOf_bytes_None)
  next
    case (Some i)
    note i = indexOf_bytes_Some [OF Some]
    from i(3) have "length (take (length ?P) (drop i chunk)) = length ?P" by simp
    with i(2) have fits: "i + length ?P \<le> length chunk"
      by (simp add: min_def split: if_splits)
    obtain pushed1 s1 where rec: "scanPatterns pf chunk (i + length ?P) = (pushed1, s1)"
      by (cases "scanPatterns pf chunk (i + length ?P)")
    from "1.IH" [OF Some fits rec]
    have ih: "i + length ?P \<le> s1" "s1 \<le> length chunk"
      "\<And>rest. ?R (drop (i + length ?P) chunk @ rest) = concat pushed1 @ ?R (drop s1 chunk @ rest)"
      "\<And>j. s1 \<le> j \<Longrightarrow> j < length chunk \<Longrightarrow> take (length ?P) (drop j chunk) \<noteq> ?P"
      "s1 = i + length ?P \<or> 0 < s1 \<and> chunk ! (s1 - 1) = 0x0A"
      by auto
    from eq Some rec "1.prems"(2)
    have res: "pushed = buf_slice chunk s i # originalLineFeed # pushed1" "s' = s1"
      by simp_all
    have step: "?R (drop s chunk @ rest)
        = buf_slice chunk s i @ originalLineFeed @ ?R (drop (i + length ?P) chunk @ rest)" for rest
    proof -
      have "?R (drop s chunk @ rest)
          = take (i - s) (drop s chunk @ rest) @ ?R (drop (i - s) (drop s chunk @ rest))"
      proof (rule replace_each_skip)
        fix j assume j: "j < i - s"
        then have "s + j + length ?P \<le> length chunk" using fits by simp
        from prefix_inside [OF this, of rest] i(4) [of "s + j"] j
        have "\<not> prefix ?P (drop (s + j) chunk @ rest)" by simp
        moreover have "drop j (drop s chunk @ rest) = drop (s + j) chunk @ rest"
          using j i(2) by (simp add: add.commute)
        ultimately show "\<not> prefix ?P (drop j (drop s chunk @ rest))" by simp
      next
        from i(1,2) show "i - s \<le> length (drop s chunk @ rest)" by simp
      qed
      moreover have "take (i - s) (drop s chunk @ rest) = buf_slice chunk s i"
        using i(1,2) by (simp add: buf_slice_def)
      moreover have "drop (i - s) (drop s chunk @ rest) = drop i chunk @ rest"
        using i(1,2) by simp
      moreover have "?R (drop i chunk @ rest)
          = originalLineFeed @ ?R (drop (length ?P) (drop i chunk @ rest))"
      proof (rule replace_each_match [OF pattern_nonempty])
        from prefix_inside [OF fits, of rest] i(3) show "prefix ?P (drop i chunk @ rest)" by simp
      qed
      moreover have "drop (length ?P) (drop i chunk @ rest) = drop (i + length ?P) chunk @ rest"
        using fits by (simp add: add.commute)
      ultimately show ?thesis by simp
    qed
    have lf: "chunk ! (i + length ?P - 1) = 0x0A"
    proof -
      have "chunk ! (i + length ?P - 1) = take (length ?P) (drop i chunk) ! (length ?P - 1)"
        using fits pattern_nonempty [of pf]
        by (simp add: Nat.add_diff_assoc Suc_leI)
      also have "\<dots> = last ?P"
        using i(3) pattern_nonempty [of pf] by (simp add: last_conv_nth)
      finally show ?thesis by (simp add: pattern_last)
    qed
    from pattern_nonempty [of pf] have pos: "0 < length ?P" by simp
    have "s \<le> s'" using res ih(1) i(1) by simp
    moreover have "s' \<le> length chunk" using res ih(2) by simp
    moreover have "\<forall>rest. ?R (drop s chunk @ rest) = concat pushed @ ?R (drop s' chunk @ rest)"
      using step ih(3) res by simp
    moreover have "\<forall>j. s' \<le> j \<and> j < length chunk \<longrightarrow> take (length ?P) (drop j chunk) \<noteq> ?P"
      using ih(4) res by simp
    moreover have "0 < s' \<and> chunk ! (s' - 1) = 0x0A"
      using ih(5) res lf pos by auto
    ultimately show ?thesis by blast
  qed
qed

lemma suspicious_iff:
  assumes "length target + 1 - length pat \<le> index" and "index \<le> length target"
  shows "list_all (\<lambda>j. byteAt target j = byteAt pat (j - index)) [index..<length target]
         \<longleftrightarrow> prefix (drop index target) pat"
proof -
  let ?n = "length target - index"
  from assms have n: "?n \<le> length pat" by simp
  have "prefix (drop index target) pat \<longleftrightarrow> drop index target = take ?n pat"
    by (metis append_eq_conv_conj length_drop prefix_def take_is_prefix)
  also have "\<dots> \<longleftrightarrow> (\<forall>k<?n. drop index target ! k = take ?n pat ! k)"
    using n by (auto simp: list_eq_iff_nth_eq)
  also have "\<dots> \<longleftrightarrow> (\<forall>k<?n. target ! (index + k) = pat ! k)"
    using assms(2) by simp
  also have "\<dots> \<longleftrightarrow> (\<forall>j. index \<le> j \<and> j < length target \<longrightarrow> target ! j = pat ! (j - index))"
  proof (intro iffI allI impI)
    fix j assume a: "\<forall>k<?n. target ! (index + k) = pat ! k" and "index \<le> j \<and> j < length target"
    then have "j - index < ?n" by auto
    with a have "target ! (index + (j - index)) = pat ! (j - index)" by blast
    with \<open>index \<le> j \<and> j < length target\<close> show "target ! j = pat ! (j - index)" by simp
  next
    fix k assume a: "\<forall>j. index \<le> j \<and> j < length target \<longrightarrow> target ! j = pat ! (j - index)"
      and "k < ?n"
    then have "index \<le> index + k \<and> index + k < length target" by auto
    with a have "target ! (index + k) = pat ! (index + k - index)" by blast
    then show "target ! (index + k) = pat ! k" by simp
  qed
  also have "\<dots> \<longleftrightarrow> list_all (\<lambda>j. byteAt target j = byteAt pat (j - index)) [index..<length target]"
    using n by (auto simp: list_all_iff byteAt_def word_unat_eq_iff)
  finally show ?thesis by simp
qed

lemma indexOfSubpattern_Some:
  assumes "indexOfSubpattern target pat = Some u"
  shows "length target + 1 - length pat \<le> u" and "u < length target"
    and "prefix (drop u target) pat"
    and "\<And>j. length target + 1 - length pat \<le> j \<Longrightarrow> j < u \<Longrightarrow> \<not> prefix (drop j target) pat"
proof -
  let ?lo = "length target + 1 - length pat"
  let ?Q = "\<lambda>index. list_all (\<lambda>j. byteAt target j = byteAt pat (j - index)) [index..<length target]"
  from assms obtain k where k: "k < length [?lo..<length target]"
    "?Q ([?lo..<length target] ! k)" "u = [?lo..<length target] ! k"
    "\<forall>j<k. \<not> ?Q ([?lo..<length target] ! j)"
    unfolding indexOfSubpattern_def find_Some_iff by blast
  then have u: "u = ?lo + k" "?lo + k < length target" by simp_all
  then show "?lo \<le> u" "u < length target" by simp_all
  from k(2) u suspicious_iff [of target pat u] show "prefix (drop u target) pat" by simp
  fix j assume j: "?lo \<le> j" "j < u"
  with u have "j - ?lo < k" by simp
  with k(4) have "\<not> ?Q ([?lo..<length target] ! (j - ?lo))" by blast
  moreover from j u have "[?lo..<length target] ! (j - ?lo) = j" by simp
  ultimately have "\<not> ?Q j" by simp
  with suspicious_iff [of target pat j] j u show "\<not> prefix (drop j target) pat" by simp
qed

lemma indexOfSubpattern_None:
  assumes "indexOfSubpattern target pat = None"
    and "length target + 1 - length pat \<le> j" and "j < length target"
  shows "\<not> prefix (drop j target) pat"
proof -
  from assms have "\<not> list_all (\<lambda>k. byteAt target k = byteAt pat (k - j)) [j..<length target]"
    by (auto simp: indexOfSubpattern_def find_None_iff)
  with suspicious_iff [of target pat j] assms(2,3) show ?thesis by simp
qed

definition held :: "lineFeedTransform \<Rightarrow> bytes" where
  "held t = (case lastSuspiciousBytes t of None \<Rightarrow> [] | Some l \<Rightarrow> l)"

lemma no_match_in_tail:
  assumes nofull: "\<And>j. s' \<le> j \<Longrightarrow> j < length chunk
                     \<Longrightarrow> take (length (replacedLineFeed pf)) (drop j chunk) \<noteq> replacedLineFeed pf"
    and nosus: "\<And>j. length chunk + 1 - length (replacedLineFeed pf) \<le> j \<Longrightarrow> j < u
                     \<Longrightarrow> \<not> prefix (drop j chunk) (replacedLineFeed pf)"
    and q: "s' \<le> q" "q < u" "u \<le> length chunk"
  shows "\<not> prefix (replacedLineFeed pf) (drop q chunk @ rest)"
proof
  let ?P = "replacedLineFeed pf"
  assume p: "prefix ?P (drop q chunk @ rest)"
  show False
  proof (cases "q + length ?P \<le> length chunk")
    case True
    from prefix_inside [OF True, of rest] p nofull [of q] q show False by simp
  next
    case False
    moreover from pattern_nonempty [of pf] have "0 < length ?P" by simp
    ultimately have "length chunk - q < length ?P" by arith
    then have "length (drop q chunk) < length ?P" by simp
    from prefix_across [OF p this] have "prefix (drop q chunk) ?P" .
    moreover from False have "length chunk + 1 - length ?P \<le> q" by simp
    ultimately show False using nosus [of q] q by simp
  qed
qed

lemma transform_chunk_correct:
  assumes "transform_chunk pf t c = (pushed, t')"
  shows "(\<forall>rest. replace_each (replacedLineFeed pf) originalLineFeed (held t @ c @ rest)
            = concat pushed @ replace_each (replacedLineFeed pf) originalLineFeed (held t' @ rest))
       \<and> length (held t') < length (replacedLineFeed pf)"
proof -
  let ?P = "replacedLineFeed pf"
  let ?R = "replace_each ?P originalLineFeed"
  define chunk where "chunk = held t @ c"
  have ch: "(case lastSuspiciousBytes t of Some l \<Rightarrow> l @ c | None \<Rightarrow> c) = chunk"
    by (simp add: held_def chunk_def split: option.splits)
  obtain pushed0 s' where sc: "scanPatterns pf chunk 0 = (pushed0, s')"
    by (cases "scanPatterns pf chunk 0")
  from scanPatterns_correct [OF _ sc]
  have s': "s' \<le> length chunk"
    and R0: "\<And>rest. ?R (held t @ c @ rest) = concat pushed0 @ ?R (drop s' chunk @ rest)"
    and nofull: "\<And>j. s' \<le> j \<Longrightarrow> j < length chunk \<Longrightarrow> take (length ?P) (drop j chunk) \<noteq> ?P"
    and lf: "s' = 0 \<or> 0 < s' \<and> chunk ! (s' - 1) = 0x0A"
    by (auto simp: chunk_def)
  from pattern_nonempty [of pf] have pos: "0 < length ?P" by simp
  show ?thesis
  proof (cases "s' < length chunk")
    case False
    with s' have "drop s' chunk = []" by simp
    moreover from False assms sc ch have "pushed = pushed0" "held t' = []"
      by (auto simp: transform_chunk_def Let_def held_def)
    ultimately show ?thesis using R0 pos by simp
  next
    case True
    show ?thesis
    proof (cases "indexOfSubpattern chunk ?P")
      case None
      with True assms sc ch have res: "pushed = pushed0 @ [drop s' chunk]" "held t' = []"
        by (auto simp: transform_chunk_def Let_def held_def)
      have "?R (drop s' chunk @ rest) = drop s' chunk @ ?R rest" for rest
      proof -
        let ?t = "drop s' chunk"
        have "?R (?t @ rest) = take (length ?t) (?t @ rest) @ ?R (drop (length ?t) (?t @ rest))"
        proof (rule replace_each_skip)
          fix j assume j: "j < length ?t"
          have "\<not> prefix ?P (drop (s' + j) chunk @ rest)"
          proof (rule no_match_in_tail [where s' = s' and u = "length chunk"])
            show "s' \<le> s' + j" "s' + j < length chunk" "length chunk \<le> length chunk"
              using j by simp_all
          next
            fix k assume "s' \<le> k" "k < length chunk"
            then show "take (length ?P) (drop k chunk) \<noteq> ?P" by (rule nofull)
          next
            fix k assume "length chunk + 1 - length ?P \<le> k" "k < length chunk"
            with None show "\<not> prefix (drop k chunk) ?P" by (rule indexOfSubpattern_None)
          qed
          moreover have "drop j (?t @ rest) = drop (s' + j) chunk @ rest"
            using j by (simp add: add.commute)
          ultimately show "\<not> prefix ?P (drop j (?t @ rest))" by simp
        qed simp
        then show ?thesis by simp
      qed
      with R0 res pos show ?thesis by simp
    next
      case (Some u)
      note u = indexOfSubpattern_Some [OF Some]
      from True assms sc ch Some
      have res: "pushed = pushed0 @ [buf_slice chunk s' u]" "held t' = drop u chunk"
        by (auto simp: transform_chunk_def Let_def held_def)
      from u(1,2) pos have short: "length (drop u chunk) < length ?P" by simp
      have le: "s' \<le> u"
      proof (rule ccontr)
        assume "\<not> s' \<le> u"
        then have lt: "u < s'" by simp
        with lf have "chunk ! (s' - 1) = 0x0A" by simp
        moreover from lt s' have "drop u chunk ! (s' - 1 - u) = chunk ! (s' - 1)"
          by simp
        moreover from lt True have "s' - 1 - u < length (drop u chunk)" by simp
        ultimately have "0x0A \<in> set (drop u chunk)" by (metis nth_mem)
        with pattern_proper_prefix [OF u(3) short] show False by simp
      qed
      have "?R (drop s' chunk @ rest) = buf_slice chunk s' u @ ?R (drop u chunk @ rest)" for rest
      proof -
        let ?t = "drop s' chunk"
        have "?R (?t @ rest) = take (u - s') (?t @ rest) @ ?R (drop (u - s') (?t @ rest))"
        proof (rule replace_each_skip)
          fix j assume j: "j < u - s'"
          have "\<not> prefix ?P (drop (s' + j) chunk @ rest)"
          proof (rule no_match_in_tail [where s' = s' and u = u])
            show "s' \<le> s' + j" "s' + j < u" "u \<le> length chunk"
              using j u(2) by simp_all
          next
            fix k assume "s' \<le> k" "k < length chunk"
            then show "take (length ?P) (drop k chunk) \<noteq> ?P" by (rule nofull)
          next
            fix k assume "length chunk + 1 - length ?P \<le> k" "k < u"
            then show "\<not> prefix (drop k chunk) ?P" by (rule u(4))
          qed
          moreover have "drop j (?t @ rest) = drop (s' + j) chunk @ rest"
            using j u(2) by (simp add: add.commute)
          ultimately show "\<not> prefix ?P (drop j (?t @ rest))" by simp
        next
          from le u(2) show "u - s' \<le> length (?t @ rest)" by simp
        qed
        moreover have "take (u - s') (?t @ rest) = buf_slice chunk s' u"
          using le u(2) by (simp add: buf_slice_def)
        moreover have "drop (u - s') (?t @ rest) = drop u chunk @ rest"
          using le u(2) by simp
        ultimately show ?thesis by simp
      qed
      with R0 res short show ?thesis by simp
    qed
  qed
qed

lemma transform_all_correct:
  assumes "length (held t) < length (replacedLineFeed pf)"
  shows "concat (transform_all pf t chunks)
           = replace_each (replacedLineFeed pf) originalLineFeed (held t @ concat chunks)"
  using assms
proof (induction chunks arbitrary: t)
  case Nil
  have "concat (fst (flush t)) = held t"
    by (simp add: flush_def held_def split: option.splits)
  with replace_each_short [OF Nil, of originalLineFeed] show ?case by simp
next
  case (Cons c chunks)
  obtain pushed t' where tc: "transform_chunk pf t c = (pushed, t')"
    by (cases "transform_chunk pf t c")
  from transform_chunk_correct [OF tc]
  have step: "replace_each (replacedLineFeed pf) originalLineFeed (held t @ c @ concat chunks)
      = concat pushed @ replace_each (replacedLineFeed pf) originalLineFeed (held t' @ concat chunks)"
    and short: "length (held t') < length (replacedLineFeed pf)"
    by simp_all
  from Cons.IH [OF short] tc step show ?case by simp
qed

text \<open>
  Chunking of the transform's input. For every platform, every input and every way of
  cutting it into chunks, the pushes of the transform, the flush at the end of the stream
  included, concatenate to the input with every occurrence of the platform's sequence
  (found from the left, without overlap) replaced by the one byte of \<open>originalLineFeed\<close>,
  every other byte kept in its place. So the output for the chunks equals the output for
  the same bytes in a single chunk. The byte of \<open>originalLineFeed\<close> is \<open>0x0D\<close>.
\<close>

theorem corrector_chunking_independent:
  "corrector_output pf chunks
     = replace_each (replacedLineFeed pf) originalLineFeed (concat chunks)
   \<and> corrector_output pf chunks = corrector_output pf [concat chunks]
   \<and> originalLineFeed = [0x0D]"
proof -
  have "length (held \<lparr>lastSuspiciousBytes = None\<rparr>) < length (replacedLineFeed pf)"
    by (simp add: held_def replacedLineFeed_def)
  from transform_all_correct [OF this]
  have "corrector_output pf cs
      = replace_each (replacedLineFeed pf) originalLineFeed (concat cs)" for cs
    by (simp add: corrector_output_def held_def)
  from this [of chunks] this [of "[concat chunks]"] show ?thesis
    by (simp add: originalLineFeed_def)
qed

lemmas corrector_eval =
  corrector_output_def transform_chunk_def flush_def scanPatterns.simps indexOf_bytes_def
  indexOfSubpattern_def replacedLineFeed_def originalLineFeed_def buf_slice_def byteAt_def
  Let_def

theorem corrector_chunking_independent_witness:
  "corrector_output Other [[1, 2, 0x0D], [0x0A, 3, 0x0D, 0x0D], [0x0D, 0x0A, 0x0D]]
     = [1, 2, 0x0D, 3, 0x0D, 0x0D, 0x0D, 0x0D]
   \<and> corrector_output Win32 [[1, 0x0D], [0x0D], [0x0A, 2, 0x0D, 0x0A], [0x0D]]
     = [1, 0x0D, 2, 0x0D, 0x0A, 0x0D]"
proof -
  note a = corrector_chunking_independent
      [of Other "[[1, 2, 0x0D], [0x0A, 3, 0x0D, 0x0D], [0x0D, 0x0A, 0x0D]]", THEN conjunct1]
  note b = corrector_chunking_independent
      [of Win32 "[[1, 0x0D], [0x0D], [0x0A, 2, 0x0D, 0x0A], [0x0D]]", THEN conjunct1]
  show ?thesis
    unfolding a b by (simp add: replacedLineFeed_def originalLineFeed_def)
qed

text \<open>
  Claim C8. Each occurrence of the platform's sequence is to become the one line-feed byte
  that it stood for, \<open>0x0A\<close> (the comment of the class: \<open>0A\<close> is being replaced by
  \<open>0D0A\<close>, or by \<open>0D0D0A\<close> on Windows). The transform pushes \<open>originalLineFeed\<close>, which is
  \<open>0x0D\<close>: for \<open>41 0D 0A 42\<close>, in one chunk or cut inside the sequence, and for
  \<open>41 0D 0D 0A 42\<close> on Windows, the output is \<open>41 0D 42\<close>, where the replacement by the
  line-feed byte gives \<open>41 0A 42\<close>.
\<close>

theorem corrector_writes_CR_for_line_feed:
  "corrector_output Other [[0x41, 0x0D, 0x0A, 0x42]] = [0x41, 0x0D, 0x42]
   \<and> corrector_output Win32 [[0x41, 0x0D, 0x0D, 0x0A, 0x42]] = [0x41, 0x0D, 0x42]
   \<and> corrector_output Other [[0x41, 0x0D], [0x0A, 0x42]] = [0x41, 0x0D, 0x42]
   \<and> replace_each (replacedLineFeed Other) [0x0A] [0x41, 0x0D, 0x0A, 0x42] = [0x41, 0x0A, 0x42]
   \<and> replace_each (replacedLineFeed Win32) [0x0A] [0x41, 0x0D, 0x0D, 0x0A, 0x42] = [0x41, 0x0A, 0x42]"
  by (simp add: corrector_eval)

section \<open>Padding before the priority, and the id\<close>

lemma scanPadding_zeros:
  assumes "1 \<le> i" and "i \<le> k" and "k + 1 < len" and "k < length a"
    and "\<And>j. j < k \<Longrightarrow> a ! j = 0" and "a ! k \<noteq> 0"
  shows "scanPadding len (Some 0) i a e = (Return (Some (unat (a ! k)), k + 1, a), e)"
  using assms(1,2)
proof (induction "k - i" arbitrary: i)
  case 0
  then have i: "i = k" by simp
  from assms(4,6) have "byteAt a k = Some (unat (a ! k))" "unat (a ! k) \<noteq> 0"
    by (simp_all add: byteAt_def unat_eq_0)
  then have "scanPadding len (byteAt a k) (k + 1) a e = (Return (Some (unat (a ! k)), k + 1, a), e)"
    by (subst scanPadding.simps) simp
  with assms(3) show ?case
    by (subst scanPadding.simps) (simp add: i Let_def)
next
  case (Suc d)
  then have lt: "i < k" by simp
  with assms(4,5) have "byteAt a i = Some 0" by (simp add: byteAt_def)
  moreover from Suc.hyps(1) [of "i + 1"] Suc.hyps(2) lt
  have "scanPadding len (Some 0) (i + 1) a e = (Return (Some (unat (a ! k)), k + 1, a), e)"
    by simp
  ultimately show ?case
    using assms(3) lt by (subst scanPadding.simps) (simp add: Let_def)
qed

lemma readPayload_padded:
  assumes ok: "ok c e" and str: "stream e = replicate k 0 @ pl @ rest"
    and k: "1 \<le> k" "k + 1 < length pl" and pr: "hd pl \<noteq> 0"
  shows "\<exists>e'. ok c e' \<and> stream e' = rest
           \<and> readPayload (length pl) e
               = (Return (Some (unat (hd pl)), k + 1, replicate k 0 @ pl), e')"
proof -
  let ?len = "length pl"
  let ?a = "replicate k 0 @ take (?len - k) pl"
  let ?b = "drop (?len - k) pl"
  from k(2) have "0 < length pl" by linarith
  then have pl: "pl \<noteq> []" by simp
  have split: "replicate k 0 @ pl @ rest = ?a @ ?b @ rest" by simp
  have la: "length ?a = ?len" using k by simp
  from step_read [OF ok, of ?a "?b @ rest" ?len] str split la
  obtain e1 where e1: "ok c e1" "stream e1 = ?b @ rest"
    and r1: "read ?len (resume e) = (Return ?a, e1)" by auto
  have a0: "byteAt ?a 0 = Some 0" using k pl by (simp add: byteAt_def nth_append)
  have ak: "?a ! k = hd pl" using k pl by (simp add: nth_append hd_conv_nth)
  have "scanPadding ?len (Some 0) 1 ?a e1 = (Return (Some (unat (?a ! k)), k + 1, ?a), e1)"
  proof (rule scanPadding_zeros)
    show "1 \<le> (1::nat)" "1 \<le> k" "k + 1 < ?len" using k by simp_all
    show "k < length ?a" using k by simp
    show "?a ! k \<noteq> 0" using ak pr by simp
    fix j assume "j < k"
    then show "?a ! j = 0" by (simp add: nth_append)
  qed
  with ak have sc: "scanPadding ?len (byteAt ?a 0) 1 ?a e1 = (Return (Some (unat (hd pl)), k + 1, ?a), e1)"
    by (simp add: a0)
  have lb: "length ?b = k + 1 - 1" using k by simp
  from step_read [OF e1 lb] obtain e2 where e2: "ok c e2" "stream e2 = rest"
    and r2: "read (k + 1 - 1) (resume e1) = (Return ?b, e2)" by auto
  have "?a @ ?b = replicate k 0 @ pl" by simp
  with r1 sc r2 k have "readPayload ?len e
      = (Return (Some (unat (hd pl)), k + 1, replicate k 0 @ pl), e2)"
    by (simp add: readPayload_def await_def del: append_take_drop_id)
  with e2 show ?thesis by blast
qed

lemma find_mapped:
  "find P (map f xs) = map_option f (find (\<lambda>x. P (f x)) xs)"
  by (induction xs) simp_all

lemma indexOf_byte_shift:
  "indexOf_byte (z @ b) v (length z + s) = map_option (\<lambda>i. length z + i) (indexOf_byte b v s)"
proof -
  have "[length z + s..<length z + length b] = map (\<lambda>i. length z + i) [s..<length b]"
    by (rule nth_equalityI) auto
  then have "indexOf_byte (z @ b) v (length z + s)
      = find (\<lambda>i. (z @ b) ! i = v) (map (\<lambda>i. length z + i) [s..<length b])"
    by (simp add: indexOf_byte_def)
  also have "\<dots> = map_option (\<lambda>i. length z + i) (find (\<lambda>i. b ! i = v) [s..<length b])"
    by (simp add: find_mapped nth_append)
  finally show ?thesis by (simp add: indexOf_byte_def)
qed

lemma makeEntry_padded:
  assumes "pl \<noteq> []"
  shows "makeEntry (frame_of w (p, k + 1, replicate k 0 @ pl)) = makeEntry (frame_of w (p, 1, pl))"
proof -
  let ?z = "replicate k (0::byte)"
  have ix: "indexOf_byte (?z @ pl) 0 (Suc k) = map_option (\<lambda>i. k + i) (indexOf_byte pl 0 (Suc 0))"
    using indexOf_byte_shift [of ?z pl 0 1] by simp
  have sl: "buf_slice (?z @ pl) (k + a) (k + b) = buf_slice pl a b" for a b
    by (simp add: buf_slice_def)
  have sl1: "buf_slice (?z @ pl) (Suc k) (k + b) = buf_slice pl (Suc 0) b" for b
    using sl [of 1 b] by simp
  have sl2: "buf_slice (?z @ pl) (Suc (k + a)) (k + b) = buf_slice pl (Suc a) b" for a b
    using sl [of "Suc a" b] by simp
  have sl3: "buf_slice (?z @ pl) (Suc (k + a)) (k + b - Suc 0) = buf_slice pl (Suc a) (b - Suc 0)"
    if "0 < b" for a b
    using sl [of "Suc a" "b - 1"] that by (simp add: Nat.add_diff_assoc Suc_leI)
  from assms have pos: "0 < length pl" by simp
  show ?thesis
    using assms pos
    by (cases "indexOf_byte pl 0 (Suc 0)")
       (simp_all add: makeEntry_def frame_of_def Let_def ix sl1 sl2 sl3)
qed

text \<open>
  A frame with \<open>k\<close> zero bytes before its payload, \<open>k + 1\<close> less than the payload length
  (the priority is found before \<open>priorityIndex\<close> reaches \<open>len\<close>): the iteration consumes
  the header, the padding and the payload, no more, and yields the record of the frame
  without padding.
\<close>

theorem padded_frame_decodes:
  assumes "ok c e" and "wf_wire w" and "k + 1 < length (w_payload w)"
    and "stream e = header_bytes (length (w_payload w)) w @ replicate k 0 @ w_payload w @ rest"
  shows "\<exists>e'. ok c e' \<and> stream e' = rest \<and> iteration tryRecover e = (Return (entry_of w), e')"
proof (cases "k = 0")
  case True
  with assms(4) have "stream e = encode w @ rest" by (simp add: encode_def)
  from iteration_wire [OF assms(1) this assms(2)] show ?thesis .
next
  case False
  let ?pl = "w_payload w"
  from assms(2) have h: "wf_header w" and len: "length ?pl < 65536" and ne: "?pl \<noteq> []"
    and pr: "hd ?pl \<noteq> 0"
    by (simp_all add: wf_wire_def)
  from readFrame_header [OF assms(1,4) h len, of tryRecover] obtain e7 where e7: "ok c e7"
    "stream e7 = replicate k 0 @ ?pl @ rest"
    and rf: "readFrame tryRecover e
              = await (readPayload (length ?pl) e7) (\<lambda>x e10. (Return (frame_of w x), e10))"
    by blast
  from False have "1 \<le> k" by simp
  from readPayload_padded [OF e7 this assms(3) pr] obtain e10 where e10: "ok c e10"
    "stream e10 = rest"
    and rp: "readPayload (length ?pl) e7
              = (Return (Some (unat (hd ?pl)), k + 1, replicate k 0 @ ?pl), e10)"
    by blast
  from rf rp makeEntry_padded [OF ne, of w _ k] makeEntry_wire [OF ne]
  have "iteration tryRecover e = (Return (entry_of w), e10\<lparr>self := rollBuffer (self e10)\<rparr>)"
    by (simp add: iteration_def await_def)
  with roll_ok [OF e10(1)] e10(2) show ?thesis by auto
qed

theorem padded_frame_decodes_witness:
  "\<exists>e'. stream e' = [9, 9]
     \<and> iteration False
          (attached [[6, 0, 0, 0, 1, 0, 0, 0, 2, 0, 0, 0, 3, 0, 0, 0, 4, 0, 0, 0, 0,
                      4, 116, 101, 115, 116, 0, 9, 9]] [])
       = (Return \<lparr>pid = 1, tid = 2, sec = 3, nsec = 4, entry_id = None, priority = Some 4,
                  tag = [116, 101, 115, 116], msg = []\<rparr>, e')"
  using padded_frame_decodes [of True
      "attached [[6, 0, 0, 0, 1, 0, 0, 0, 2, 0, 0, 0, 3, 0, 0, 0, 4, 0, 0, 0, 0,
                  4, 116, 101, 115, 116, 0, 9, 9]] []" wire1 1 "[9, 9]" False]
  by (auto simp: attached_ok attached_stream wire1_def wf_wire_def wf_header_def int32_def
      header_bytes_def le16_def le32_def le32s_def entry_of_def)

text \<open>
  The id of a well-formed frame: none when the header size is 0; when it is 24, the four
  bytes after \<open>nsec\<close> are read as the id, and the entry carries it unless it is 0.
\<close>

theorem header_variant_id:
  assumes "ok c e" and "wf_wire w" and "stream e = encode w @ rest"
  shows "\<exists>x e'. iteration tryRecover e = (Return x, e') \<and> stream e' = rest
           \<and> entry_id x = (if w_headerSize w = 24 \<and> w_id w \<noteq> 0 then Some (w_id w) else None)
           \<and> length (encode w)
               = 20 + (if w_headerSize w = 24 then 4 else 0) + length (w_payload w)"
proof -
  from iteration_wire [OF assms(1,3,2), of tryRecover] obtain e' where
    "stream e' = rest" "iteration tryRecover e = (Return (entry_of w), e')" by blast
  moreover have "entry_id (entry_of w)
      = (if w_headerSize w = 24 \<and> w_id w \<noteq> 0 then Some (w_id w) else None)"
    by (simp add: entry_of_def Let_def)
  moreover have "length (encode w)
      = 20 + (if w_headerSize w = 24 then 4 else 0) + length (w_payload w)"
    by (simp add: encode_def header_bytes_def)
  ultimately show ?thesis by blast
qed

theorem header_variant_id_witness:
  "\<exists>x e'. iteration False (attached [[6, 0, 24, 0, 44, 1, 0, 0, 255, 255, 255, 255, 0, 16, 94, 95,
                                       255, 201, 154, 59, 23, 39, 0, 0, 6, 65, 0, 104, 105, 0]] [])
             = (Return x, e')
     \<and> stream e' = [] \<and> entry_id x = Some 10007"
  using header_variant_id [of True
      "attached [[6, 0, 24, 0, 44, 1, 0, 0, 255, 255, 255, 255, 0, 16, 94, 95,
                  255, 201, 154, 59, 23, 39, 0, 0, 6, 65, 0, 104, 105, 0]] []" wire2 "[]" False]
  by (auto simp: attached_ok attached_stream wire2_def wf_wire_def wf_header_def int32_def
      encode_def header_bytes_def le16_def le32_def le32s_def)

end
